theory Spec2Isabelle
  imports Complex_Main
begin

section \<open>The border-midpoint solver\<close>

text \<open>
  The embedding follows \<^verbatim>\<open>precompute-usa-midpoints.js\<close>: the path parser
  \<^verbatim>\<open>parsePath\<close>, the arc-length functions \<^verbatim>\<open>computeTotalLength\<close> and
  \<^verbatim>\<open>pointAtLength\<close>, \<^verbatim>\<open>computeBBox\<close> and the offline estimator
  \<^verbatim>\<open>computeBorderMidpointFromPaths\<close> (the generator script holds the same five
  functions once more, word for word); and the runtime estimator \<^verbatim>\<open>computeBorderMidpoint\<close>
  with its cache \<^verbatim>\<open>getBorderMidpoint\<close> of the Four Color Engine.

  Numbers. The source computes with IEEE doubles; here a number is a \<^typ>\<open>real\<close>:
  exact arithmetic, no rounding, no overflow. Every statement below is about this reading of
  the code, and where a claim allows a tolerance the statement holds exactly. The value
  \<^verbatim>\<open>Infinity\<close> that starts a running minimum or a bound is the value \<open>None\<close> of an
  option.

  Points. The parser does not validate operands, so a parsed coordinate may be
  \<^verbatim>\<open>undefined\<close> or \<^verbatim>\<open>NaN\<close>; its points have coordinates of type \<open>jsnum\<close>. The
  arc-length functions and the estimators are embedded on points with real coordinates, the
  points of the specification's data model; \<open>numberShape\<close> takes a parsed shape whose
  coordinates are all numbers to such a shape.

  Failure. A JavaScript \<^verbatim>\<open>TypeError\<close> (reading a property of \<^verbatim>\<open>undefined\<close> or
  \<^verbatim>\<open>null\<close>) is the value \<open>Inl TypeError\<close>; the value \<^verbatim>\<open>undefined\<close> that an
  out-of-range array read yields is \<open>None\<close>.
\<close>

section \<open>The program\<close>

subsection \<open>Points, rings, shapes\<close>

text \<open>A point object \<^verbatim>\<open>{x: ..., y: ...}\<close>; the fields are named \<open>px\<close>, \<open>py\<close>.\<close>

record point =
  px :: real
  py :: real

type_synonym ring = "point list"

type_synonym shape = "ring list"

text \<open>
  \<open>NonFinite\<close> is not an exception of the source: it marks the one place where the source
  would go on computing with infinite values (the bounding box of a shape without points),
  which the reals do not have. \<open>computeBorderMidpointFromPaths_finite\<close> shows that
  the estimator never gets there.
\<close>

datatype error = TypeError | NonFinite

subsection \<open>parsePath: values\<close>

text \<open>
  The parser does not check its operands: a missing operand is \<^verbatim>\<open>undefined\<close>, a malformed
  one is \<^verbatim>\<open>NaN\<close>, and both end up as coordinates. A coordinate of a parsed point is
  therefore \<^verbatim>\<open>undefined\<close>, \<^verbatim>\<open>NaN\<close> or a number. Arithmetic converts
  \<^verbatim>\<open>undefined\<close> to \<^verbatim>\<open>NaN\<close>, and \<^verbatim>\<open>NaN\<close> absorbs.
\<close>

datatype jsnum = Undefined | NaN | Num real

fun jmul :: "jsnum \<Rightarrow> jsnum \<Rightarrow> jsnum" where
  "jmul (Num a) (Num b) = Num (a * b)"
| "jmul _ _ = NaN"

fun jadd :: "jsnum \<Rightarrow> jsnum \<Rightarrow> jsnum" where
  "jadd (Num a) (Num b) = Num (a + b)"
| "jadd _ _ = NaN"

text \<open>Strict inequality \<^verbatim>\<open>!==\<close>: \<^verbatim>\<open>NaN\<close> differs from everything, itself included.\<close>

fun jne :: "jsnum \<Rightarrow> jsnum \<Rightarrow> bool" where
  "jne (Num a) (Num b) = (a \<noteq> b)"
| "jne Undefined Undefined = False"
| "jne _ _ = True"

record jpoint =
  jx :: jsnum
  jy :: jsnum

subsection \<open>parsePath: the regular expression\<close>

text \<open>
  \<^verbatim>\<open>/([MLCZ])\s*([-\d.,eE\s]*)/gi\<close>, applied by \<^verbatim>\<open>re.exec(d)\<close> until it returns
  \<^verbatim>\<open>null\<close>. A character is a code unit below 256; the white space among them is
  tab, line feed, vertical tab, form feed, carriage return, space and no-break space.
  Each match starts at the next command letter (of either case), skips white space and takes
  the longest run of operand characters; both starred parts may be empty, so a command letter
  always matches, and the next search starts behind the match.
\<close>

definition isCommand :: "char \<Rightarrow> bool" where
  "isCommand c = (c \<in> set ''MLCZmlcz'')"

definition isSpace :: "char \<Rightarrow> bool" where
  "isSpace c = (of_char c \<in> {9, 10, 11, 12, 13, 32, 160 :: nat})"

definition isDigit :: "char \<Rightarrow> bool" where
  "isDigit c = (c \<in> set ''0123456789'')"

definition isOperandChar :: "char \<Rightarrow> bool" where
  "isOperandChar c = (c = CHR ''-'' \<or> isDigit c \<or> c = CHR ''.'' \<or> c = CHR '','' \<or> c = CHR ''e''
     \<or> c = CHR ''E'' \<or> isSpace c)"

definition toUpperCase :: "char \<Rightarrow> char" where
  "toUpperCase c =
     (if c = CHR ''m'' then CHR ''M'' else if c = CHR ''l'' then CHR ''L''
      else if c = CHR ''c'' then CHR ''C'' else if c = CHR ''z'' then CHR ''Z'' else c)"

text \<open>All matches of the expression in \<open>d\<close>: the pairs \<^verbatim>\<open>(m[1], m[2])\<close>.\<close>

function (sequential) execAll :: "string \<Rightarrow> (char \<times> string) list" where
  "execAll [] = []"
| "execAll (c # d) =
     (if isCommand c
      then (let rest = dropWhile isSpace d
            in (c, takeWhile isOperandChar rest) # execAll (dropWhile isOperandChar rest))
      else execAll d)"
  by pat_completeness auto
termination
proof (relation "measure length")
  show "wf (measure length)" by simp
next
  fix c :: char and d rest :: string
  assume "rest = dropWhile isSpace d"
  then have "length (dropWhile isOperandChar rest) \<le> length d"
    by (simp add: order_trans [OF length_dropWhile_le length_dropWhile_le])
  then show "(dropWhile isOperandChar rest, c # d) \<in> measure length" by simp
next
  fix c :: char and d :: string
  show "(d, c # d) \<in> measure length" by simp
qed

subsection \<open>parsePath: the operands\<close>

text \<open>\<^verbatim>\<open>trim()\<close> removes white space at both ends.\<close>

definition trim :: "string \<Rightarrow> string" where
  "trim s = rev (dropWhile isSpace (rev (dropWhile isSpace s)))"

text \<open>
  \<^verbatim>\<open>split(/[\s,]+/)\<close>: the pieces between the maximal runs of separators; a run at the
  start or at the end of the string leaves an empty piece there.
\<close>

definition isSeparator :: "char \<Rightarrow> bool" where
  "isSeparator c = (isSpace c \<or> c = CHR '','')"

function split :: "string \<Rightarrow> string list" where
  "split s =
     (let piece = takeWhile (\<lambda>c. \<not> isSeparator c) s;
          rest = dropWhile (\<lambda>c. \<not> isSeparator c) s
      in if rest = [] then [piece] else piece # split (dropWhile isSeparator rest))"
  by pat_completeness auto
termination
proof (relation "measure length")
  show "wf (measure length)" by simp
next
  fix s piece rest :: string
  assume rest: "rest = dropWhile (\<lambda>c. \<not> isSeparator c) s" and ne: "rest \<noteq> []"
  then have "isSeparator (hd rest)" using hd_dropWhile [of "\<lambda>c. \<not> isSeparator c" s] by auto
  with ne have "length (dropWhile isSeparator rest) < length rest"
    by (cases rest) (simp_all add: le_imp_less_Suc length_dropWhile_le)
  also have "length rest \<le> length s" unfolding rest by (rule length_dropWhile_le)
  finally show "(dropWhile isSeparator rest, s) \<in> measure length" by simp
qed

declare split.simps [simp del]

text \<open>
  \<^verbatim>\<open>Number(piece)\<close> for a piece of operand characters other than separators, that is,
  over \<^verbatim>\<open>- 0-9 . e E\<close>: the empty piece is \<open>0\<close>; otherwise an optional sign, digits with
  an optional fraction (at least one digit in all), and an optional exponent of at least one
  digit; anything else is \<^verbatim>\<open>NaN\<close>. The value is the exact decimal value.
\<close>

definition digitsValue :: "string \<Rightarrow> nat" where
  "digitsValue ds = foldl (\<lambda>n c. 10 * n + (of_char c - 48)) 0 ds"

definition exponentOf :: "string \<Rightarrow> (bool \<times> nat) option" where
  "exponentOf s =
     (case s of
        [] \<Rightarrow> Some (False, 0)
      | c # r \<Rightarrow>
          if c = CHR ''e'' \<or> c = CHR ''E''
          then (let (neg, ds) = (case r of
                                   [] \<Rightarrow> (False, r)
                                 | c' # r' \<Rightarrow> if c' = CHR ''-'' then (True, r')
                                              else if c' = CHR ''+'' then (False, r') else (False, r))
                in if ds \<noteq> [] \<and> list_all isDigit ds then Some (neg, digitsValue ds) else None)
          else None)"

definition Number :: "string \<Rightarrow> jsnum" where
  "Number s =
     (if s = [] then Num 0
      else (let (neg, s1) = (case s of
                               c # r \<Rightarrow> if c = CHR ''-'' then (True, r)
                                        else if c = CHR ''+'' then (False, r) else (False, s)
                             | [] \<Rightarrow> (False, s));
                ip = takeWhile isDigit s1;
                r1 = dropWhile isDigit s1;
                (fp, r2) = (case r1 of
                              c # r \<Rightarrow> if c = CHR ''.'' then (takeWhile isDigit r, dropWhile isDigit r)
                                       else ([], r1)
                            | [] \<Rightarrow> ([], r1))
            in if ip = [] \<and> fp = [] then NaN
               else (case exponentOf r2 of
                       None \<Rightarrow> NaN
                     | Some (eneg, e) \<Rightarrow>
                         (let mantissa = real (digitsValue ip) + real (digitsValue fp) / 10 ^ length fp;
                              scaled = (if eneg then mantissa / 10 ^ e else mantissa * 10 ^ e)
                          in Num (if neg then - scaled else scaled)))))"

definition numsOf :: "string \<Rightarrow> jsnum list" where
  "numsOf m2 = (if length (trim m2) > 0 then map Number (split (trim m2)) else [])"

text \<open>\<^verbatim>\<open>nums[k]\<close>: \<^verbatim>\<open>undefined\<close> beyond the end of the array.\<close>

definition numAt :: "jsnum list \<Rightarrow> nat \<Rightarrow> jsnum" where
  "numAt nums k = (if k < length nums then nums ! k else Undefined)"

subsection \<open>parsePath\<close>

text \<open>
  The variables of \<^verbatim>\<open>parsePath\<close>: \<open>psegments\<close> is \<^verbatim>\<open>segments\<close>; \<^verbatim>\<open>null\<close> is \<open>None\<close>.
\<close>

record pstate =
  psegments :: "jpoint list list"
  current :: "jpoint list"
  startPt :: "jpoint option"
  curPt :: "jpoint option"

text \<open>One pushed point of the curve loop, for \<^verbatim>\<open>t\<close> from \<open>1\<close> to \<open>10\<close>.\<close>

definition curvePoint :: "jpoint \<Rightarrow> jpoint \<Rightarrow> jpoint \<Rightarrow> jpoint \<Rightarrow> nat \<Rightarrow> jpoint" where
  "curvePoint p0 p1 p2 p3 t =
     (let s = real t / 10;
          u = 1 - s
      in \<lparr>jx = jadd (jadd (jadd (jmul (Num (u * u * u)) (jx p0)) (jmul (Num (3 * u * u * s)) (jx p1)))
                     (jmul (Num (3 * u * s * s)) (jx p2)))
                (jmul (Num (s * s * s)) (jx p3)),
          jy = jadd (jadd (jadd (jmul (Num (u * u * u)) (jy p0)) (jmul (Num (3 * u * u * s)) (jy p1)))
                     (jmul (Num (3 * u * s * s)) (jy p2)))
                (jmul (Num (s * s * s)) (jy p3))\<rparr>)"

text \<open>
  The body of the \<^verbatim>\<open>while\<close> loop for one match. In the curve branch \<^verbatim>\<open>p0.x\<close> is read
  in the first round of the inner loop and throws when \<^verbatim>\<open>curPt\<close> is still \<^verbatim>\<open>null\<close>.
\<close>

definition parseStep :: "pstate \<Rightarrow> char \<times> string \<Rightarrow> error + pstate" where
  "parseStep st m =
     (let cmd = toUpperCase (fst m);
          nums = numsOf (snd m)
      in if cmd = CHR ''M''
         then (let pt = \<lparr>jx = numAt nums 0, jy = numAt nums 1\<rparr>
               in Inr (st\<lparr>psegments := (if length (current st) > 0 then psegments st @ [current st] else psegments st),
                          curPt := Some pt, startPt := Some pt, current := [pt]\<rparr>))
         else if cmd = CHR ''L''
         then (let pt = \<lparr>jx = numAt nums 0, jy = numAt nums 1\<rparr>
               in Inr (st\<lparr>curPt := Some pt, current := current st @ [pt]\<rparr>))
         else if cmd = CHR ''C''
         then (let p1 = \<lparr>jx = numAt nums 0, jy = numAt nums 1\<rparr>;
                   p2 = \<lparr>jx = numAt nums 2, jy = numAt nums 3\<rparr>;
                   p3 = \<lparr>jx = numAt nums 4, jy = numAt nums 5\<rparr>
               in case curPt st of
                    None \<Rightarrow> Inl TypeError
                  | Some p0 \<Rightarrow>
                      Inr (st\<lparr>current := current st @ map (curvePoint p0 p1 p2 p3) [1..<11],
                              curPt := Some p3\<rparr>))
         else if cmd = CHR ''Z''
         then (let finished =
                     (case startPt st of
                        None \<Rightarrow> current st
                      | Some sp \<Rightarrow>
                          if length (current st) > 0
                          then (let lastPt = last (current st)
                                in if jne (jx lastPt) (jx sp) \<or> jne (jy lastPt) (jy sp)
                                   then current st @ [sp] else current st)
                          else current st)
               in Inr (st\<lparr>psegments := (if length finished > 0 then psegments st @ [finished] else psegments st),
                          current := []\<rparr>))
         else Inr st)"

fun parseLoop :: "pstate \<Rightarrow> (char \<times> string) list \<Rightarrow> error + pstate" where
  "parseLoop st [] = Inr st"
| "parseLoop st (m # ms) = (case parseStep st m of Inl e \<Rightarrow> Inl e | Inr st' \<Rightarrow> parseLoop st' ms)"

definition parsePath :: "string \<Rightarrow> error + jpoint list list" where
  "parsePath d =
     (case parseLoop \<lparr>psegments = [], current = [], startPt = None, curPt = None\<rparr> (execAll d) of
        Inl e \<Rightarrow> Inl e
      | Inr st \<Rightarrow> Inr (if length (current st) > 0 then psegments st @ [current st] else psegments st))"

text \<open>
  From a parsed shape to a shape of the arc-length functions: defined when every coordinate
  is a number.
\<close>

definition numberPoint :: "jpoint \<Rightarrow> point option" where
  "numberPoint p = (case (jx p, jy p) of (Num a, Num b) \<Rightarrow> Some \<lparr>px = a, py = b\<rparr> | _ \<Rightarrow> None)"

definition numberShape :: "jpoint list list \<Rightarrow> shape option" where
  "numberShape rings = those (map (\<lambda>r. those (map numberPoint r)) rings)"

subsection \<open>computeTotalLength\<close>

text \<open>
  \<^verbatim>\<open>for (let i = 1; i < seg.length; i++) { dx = seg[i].x - seg[i-1].x; ...; total += sqrt(dx*dx + dy*dy) }\<close>
  The inner loop visits the consecutive pairs of one ring; the running \<^verbatim>\<open>total\<close> (here \<open>tot\<close>) is threaded through.
\<close>

fun ringLength :: "ring \<Rightarrow> real \<Rightarrow> real" where
  "ringLength (p # q # rest) tot =
     (let dx = px q - px p;
          dy = py q - py p
      in ringLength (q # rest) (tot + sqrt (dx * dx + dy * dy)))"
| "ringLength seg tot = tot"

fun totalLengthFrom :: "shape \<Rightarrow> real \<Rightarrow> real" where
  "totalLengthFrom [] tot = tot"
| "totalLengthFrom (seg # segs) tot = totalLengthFrom segs (ringLength seg tot)"

definition computeTotalLength :: "shape \<Rightarrow> real" where
  "computeTotalLength segments = totalLengthFrom segments 0"

subsection \<open>pointAtLength\<close>

text \<open>
  The walk over one ring either returns from the function (\<open>Found\<close>) or falls out of the
  inner loop with the accumulated length (\<open>Continue\<close>).
\<close>

datatype walk = Found point | Continue real

fun walkRing :: "ring \<Rightarrow> real \<Rightarrow> real \<Rightarrow> walk" where
  "walkRing (p # q # rest) acc targetLen =
     (let dx = px q - px p;
          dy = py q - py p;
          segLen = sqrt (dx * dx + dy * dy)
      in if acc + segLen \<ge> targetLen
         then (let t = (if segLen > 0 then (targetLen - acc) / segLen else 0)
               in Found \<lparr>px = px p + t * dx, py = py p + t * dy\<rparr>)
         else walkRing (q # rest) (acc + segLen) targetLen)"
| "walkRing seg acc targetLen = Continue acc"

fun walkRings :: "shape \<Rightarrow> real \<Rightarrow> real \<Rightarrow> point option" where
  "walkRings [] acc targetLen = None"
| "walkRings (seg # segs) acc targetLen =
     (case walkRing seg acc targetLen of
        Found p \<Rightarrow> Some p
      | Continue acc' \<Rightarrow> walkRings segs acc' targetLen)"

text \<open>
  After the loops: \<^verbatim>\<open>lastSeg = segments[segments.length - 1]; return lastSeg[lastSeg.length - 1]\<close>.
  On an empty \<^verbatim>\<open>segments\<close> the first read is \<^verbatim>\<open>undefined\<close> and \<^verbatim>\<open>lastSeg.length\<close> throws;
  on an empty last ring the read at index \<open>-1\<close> is \<^verbatim>\<open>undefined\<close>, which is returned.
  The parameter \<open>totalLen\<close> is unused, as in the source.
\<close>

definition pointAtLength :: "shape \<Rightarrow> real \<Rightarrow> real \<Rightarrow> error + point option" where
  "pointAtLength segments totalLen targetLen =
     (case walkRings segments 0 targetLen of
        Some p \<Rightarrow> Inr (Some p)
      | None \<Rightarrow>
          if segments = [] then Inl TypeError
          else if last segments = [] then Inr None
          else Inr (Some (last (last segments))))"

subsection \<open>computeBBox\<close>

text \<open>
  The four bounds start at \<^verbatim>\<open>Infinity\<close> and \<^verbatim>\<open>-Infinity\<close> (\<open>None\<close>); each point
  updates each bound by its own comparison, \<^verbatim>\<open>if (pt.x < minX) minX = pt.x\<close> and so on.
\<close>

definition lowerTo :: "real option \<Rightarrow> real \<Rightarrow> real option" where
  "lowerTo m v = (case m of None \<Rightarrow> Some v | Some b \<Rightarrow> if v < b then Some v else Some b)"

definition raiseTo :: "real option \<Rightarrow> real \<Rightarrow> real option" where
  "raiseTo m v = (case m of None \<Rightarrow> Some v | Some b \<Rightarrow> if v > b then Some v else Some b)"

record bounds =
  minX :: "real option"
  minY :: "real option"
  maxX :: "real option"
  maxY :: "real option"

definition boundsPoint :: "point \<Rightarrow> bounds \<Rightarrow> bounds" where
  "boundsPoint pt b =
     \<lparr>minX = lowerTo (minX b) (px pt), minY = lowerTo (minY b) (py pt),
      maxX = raiseTo (maxX b) (px pt), maxY = raiseTo (maxY b) (py pt)\<rparr>"

definition boundsOf :: "shape \<Rightarrow> bounds" where
  "boundsOf segments =
     fold (\<lambda>seg b. fold boundsPoint seg b) segments
       \<lparr>minX = None, minY = None, maxX = None, maxY = None\<rparr>"

record bbox =
  bbx :: real
  bby :: real
  width :: real
  height :: real

text \<open>
  \<^verbatim>\<open>return { x: minX, y: minY, width: maxX - minX, height: maxY - minY }\<close>. A shape
  without any point leaves the bounds infinite; that box has no counterpart over the reals
  and is \<open>None\<close>.
\<close>

definition computeBBox :: "shape \<Rightarrow> bbox option" where
  "computeBBox segments =
     (let b = boundsOf segments
      in case (minX b, minY b, maxX b, maxY b) of
           (Some x0, Some y0, Some x1, Some y1) \<Rightarrow>
             Some \<lparr>bbx = x0, bby = y0, width = x1 - x0, height = y1 - y0\<rparr>
         | _ \<Rightarrow> None)"

subsection \<open>computeBorderMidpointFromPaths\<close>

text \<open>
  The inner loop over \<open>j\<close>: the running pair \<^verbatim>\<open>(bestDist, bestPt)\<close> starts at
  \<^verbatim>\<open>(Infinity, null)\<close>, which is \<open>None\<close>. \<^verbatim>\<open>ptA.x - ptB.x\<close> throws when either
  point is \<^verbatim>\<open>undefined\<close>.
\<close>

fun nearestLoop ::
  "shape \<Rightarrow> real \<Rightarrow> nat \<Rightarrow> point option \<Rightarrow> nat list \<Rightarrow> (real \<times> point) option
     \<Rightarrow> error + (real \<times> point) option" where
  "nearestLoop segmentsB lenB N ptA [] best = Inr best"
| "nearestLoop segmentsB lenB N ptA (j # js) best =
     (case pointAtLength segmentsB lenB (lenB * real j / real N) of
        Inl e \<Rightarrow> Inl e
      | Inr ptB \<Rightarrow>
          (case (ptA, ptB) of
             (Some a, Some b) \<Rightarrow>
               (let dx = px a - px b;
                    dy = py a - py b;
                    dist = dx * dx + dy * dy
                in nearestLoop segmentsB lenB N ptA js
                     (if (case best of None \<Rightarrow> True | Some (bestDist, bestPt) \<Rightarrow> dist < bestDist)
                      then Some (dist, b) else best))
           | _ \<Rightarrow> Inl TypeError))"

text \<open>The outer loop over \<open>i\<close>, appending to \<^verbatim>\<open>borderPoints\<close>.\<close>

fun borderLoop ::
  "shape \<Rightarrow> shape \<Rightarrow> real \<Rightarrow> real \<Rightarrow> nat \<Rightarrow> real \<Rightarrow> nat list \<Rightarrow> point list
     \<Rightarrow> error + point list" where
  "borderLoop segmentsA segmentsB lenA lenB N threshold [] borderPoints = Inr borderPoints"
| "borderLoop segmentsA segmentsB lenA lenB N threshold (i # is) borderPoints =
     (case pointAtLength segmentsA lenA (lenA * real i / real N) of
        Inl e \<Rightarrow> Inl e
      | Inr ptA \<Rightarrow>
          (case nearestLoop segmentsB lenB N ptA [0..<Suc N] None of
             Inl e \<Rightarrow> Inl e
           | Inr None \<Rightarrow> borderLoop segmentsA segmentsB lenA lenB N threshold is borderPoints
           | Inr (Some (bestDist, bestPt)) \<Rightarrow>
               if bestDist < threshold * threshold
               then (case ptA of
                       None \<Rightarrow> Inl TypeError
                     | Some a \<Rightarrow>
                         borderLoop segmentsA segmentsB lenA lenB N threshold is
                           (borderPoints @ [\<lparr>px = (px a + px bestPt) / 2, py = (py a + py bestPt) / 2\<rparr>]))
               else borderLoop segmentsA segmentsB lenA lenB N threshold is borderPoints))"

text \<open>The border-point candidates: the first loop with \<open>N = 200\<close> and \<open>threshold = 5\<close>.\<close>

definition borderPointsOf :: "shape \<Rightarrow> shape \<Rightarrow> error + point list" where
  "borderPointsOf segmentsA segmentsB =
     (let lenA = computeTotalLength segmentsA;
          lenB = computeTotalLength segmentsB;
          N = 200;
          threshold = 5
      in borderLoop segmentsA segmentsB lenA lenB N threshold [0..<Suc N] [])"

text \<open>
  The run loop. Its state is \<^verbatim>\<open>(bestStart, bestLen, curStart, curLen)\<close>, started at
  \<open>(0, 1, 0, 1)\<close>; the body for index \<open>i\<close> compares \<^verbatim>\<open>borderPoints[i]\<close> with
  \<^verbatim>\<open>borderPoints[i - 1]\<close>.
\<close>

definition runStep :: "point list \<Rightarrow> nat \<Rightarrow> nat \<times> nat \<times> nat \<times> nat \<Rightarrow> nat \<times> nat \<times> nat \<times> nat" where
  "runStep borderPoints i st =
     (case st of (bestStart, bestLen, curStart, curLen) \<Rightarrow>
        (let dx = px (borderPoints ! i) - px (borderPoints ! (i - 1));
             dy = py (borderPoints ! i) - py (borderPoints ! (i - 1));
             (curStart', curLen') =
                (if dx * dx + dy * dy < 40 * 40 then (curStart, curLen + 1) else (i, 1))
         in if curLen' > bestLen then (curStart', curLen', curStart', curLen')
            else (bestStart, bestLen, curStart', curLen')))"

definition runLoop :: "point list \<Rightarrow> nat \<times> nat \<times> nat \<times> nat" where
  "runLoop borderPoints = fold (runStep borderPoints) [1..<length borderPoints] (0, 1, 0, 1)"

text \<open>
  The fallback of the source adds the two box centres coordinate by coordinate. The final
  read \<^verbatim>\<open>borderPoints[midIdx]\<close> is \<^verbatim>\<open>undefined\<close> (\<open>None\<close>) out of range.
\<close>

definition computeBorderMidpointFromPaths :: "shape \<Rightarrow> shape \<Rightarrow> error + point option" where
  "computeBorderMidpointFromPaths segmentsA segmentsB =
     (case borderPointsOf segmentsA segmentsB of
        Inl e \<Rightarrow> Inl e
      | Inr borderPoints \<Rightarrow>
          if length borderPoints = 0
          then (case (computeBBox segmentsA, computeBBox segmentsB) of
                  (Some bA, Some bB) \<Rightarrow>
                    Inr (Some \<lparr>px = (bbx bA + width bA / 2 + bbx bB + width bB / 2) / 2,
                               py = (bby bA + height bA / 2 + bby bB + height bB / 2) / 2\<rparr>)
                | _ \<Rightarrow> Inl NonFinite)
          else (case runLoop borderPoints of (bestStart, bestLen, curStart, curLen) \<Rightarrow>
                  (let midIdx = bestStart + bestLen div 2
                   in if midIdx < length borderPoints then Inr (Some (borderPoints ! midIdx))
                      else Inr None)))"

subsection \<open>computeBorderMidpoint\<close>

text \<open>
  The runtime estimator reads rendered geometry through the browser: \<^verbatim>\<open>getTotalLength()\<close>,
  \<^verbatim>\<open>getPointAtLength(len)\<close> and \<^verbatim>\<open>getBBox()\<close> of an SVG path element. These are not code
  of the repository; a path element is a record of the three answers, and the SVG element is
  the list \<^verbatim>\<open>svgEl.querySelectorAll('path[data-index]')\<close> of its path elements. Reading
  \<^verbatim>\<open>paths[a]\<close> out of range gives \<^verbatim>\<open>undefined\<close>, and the call of
  \<^verbatim>\<open>getTotalLength\<close> on it throws.
\<close>

record svgPath =
  getTotalLength :: real
  getPointAtLength :: "real \<Rightarrow> point"
  getBBox :: bbox

text \<open>The double loop collecting \<^verbatim>\<open>shared\<close>; the body for one pair \<open>(i, j)\<close>.\<close>

definition sharedStep ::
  "svgPath \<Rightarrow> svgPath \<Rightarrow> real \<Rightarrow> real \<Rightarrow> nat \<Rightarrow> real \<Rightarrow> nat \<Rightarrow> nat \<Rightarrow> point list \<Rightarrow> point list" where
  "sharedStep pathA pathB lenA lenB N threshold i j shared =
     (let ptA = getPointAtLength pathA (lenA * real i / real N);
          ptB = getPointAtLength pathB (lenB * real j / real N);
          dx = px ptA - px ptB;
          dy = py ptA - py ptB
      in if dx * dx + dy * dy < threshold * threshold
         then shared @ [\<lparr>px = (px ptA + px ptB) / 2, py = (py ptA + py ptB) / 2\<rparr>]
         else shared)"

definition sharedPoints :: "svgPath \<Rightarrow> svgPath \<Rightarrow> point list" where
  "sharedPoints pathA pathB =
     (let lenA = getTotalLength pathA;
          lenB = getTotalLength pathB;
          N = 60;
          threshold = 4
      in fold (\<lambda>i shared. fold (sharedStep pathA pathB lenA lenB N threshold i) [0..<Suc N] shared)
           [0..<Suc N] [])"

text \<open>
  The loop for the closest shared point: the state is \<^verbatim>\<open>(minDist, closest)\<close>, started at
  \<^verbatim>\<open>(Infinity, shared[0])\<close>.
\<close>

definition closestStep :: "real \<Rightarrow> real \<Rightarrow> point \<Rightarrow> real option \<times> point \<Rightarrow> real option \<times> point" where
  "closestStep cx cy p st =
     (case st of (minDist, closest) \<Rightarrow>
        (let dx = px p - cx;
             dy = py p - cy;
             d = dx * dx + dy * dy
         in if (case minDist of None \<Rightarrow> True | Some m \<Rightarrow> d < m) then (Some d, p)
            else (minDist, closest)))"

definition computeBorderMidpoint :: "svgPath list \<Rightarrow> nat \<Rightarrow> nat \<Rightarrow> error + point" where
  "computeBorderMidpoint paths a b =
     (if a < length paths \<and> b < length paths
      then (let pathA = paths ! a;
                pathB = paths ! b;
                shared = sharedPoints pathA pathB
            in if length shared = 0
               then (let bA = getBBox pathA; bB = getBBox pathB
                     in Inr \<lparr>px = (bbx bA + width bA / 2 + bbx bB + width bB / 2) / 2,
                             py = (bby bA + height bA / 2 + bby bB + height bB / 2) / 2\<rparr>)
               else (let sx = fold (\<lambda>p s. s + px p) shared 0;
                         sy = fold (\<lambda>p s. s + py p) shared 0;
                         cx = sx / real (length shared);
                         cy = sy / real (length shared)
                     in case fold (closestStep cx cy) shared (None, shared ! 0) of
                          (minDist, closest) \<Rightarrow>
                            if (case minDist of None \<Rightarrow> True | Some m \<Rightarrow> sqrt m > 15)
                            then Inr closest
                            else Inr \<lparr>px = cx, py = cy\<rparr>))
      else Inl TypeError)"

subsection \<open>getBorderMidpoint\<close>







section \<open>Notions of the claims\<close>

subsection \<open>Cumulative length\<close>

text \<open>
  The cumulative length at which the point with index \<open>j\<close> of ring \<open>k\<close> lies: the length of
  all rings before ring \<open>k\<close>, and of the first \<open>j\<close> segments of ring \<open>k\<close>, summed in the
  order in which \<open>computeTotalLength\<close> sums them.
\<close>

definition cumLengthAt :: "shape \<Rightarrow> nat \<Rightarrow> nat \<Rightarrow> real" where
  "cumLengthAt segments k j =
     ringLength (take (Suc j) (segments ! k)) (totalLengthFrom (take k segments) 0)"

text \<open>
  The point at the fraction \<open>t\<close> of the segment from \<open>p\<close> to \<open>q\<close>, as the specification
  means the interpolation.
\<close>

definition interpolate :: "point \<Rightarrow> point \<Rightarrow> real \<Rightarrow> point" where
  "interpolate p q t = \<lparr>px = px p + t * (px q - px p), py = py p + t * (py q - py p)\<rparr>"

subsection \<open>Runs of candidates\<close>

text \<open>
  Two consecutive candidates \<open>k\<close>, \<open>k + 1\<close> are close when their squared distance is below
  \<open>40\<^sup>2\<close> (the comparison of the source is strict). A run \<open>(s, l)\<close> is a non-empty
  interval of \<open>l\<close> candidates from index \<open>s\<close> in which all consecutive candidates are
  close. A longest run is at least as long as every run, and starts no later than any run
  of its length.
\<close>

definition closeAt :: "point list \<Rightarrow> nat \<Rightarrow> bool" where
  "closeAt borderPoints k =
     (let dx = px (borderPoints ! Suc k) - px (borderPoints ! k);
          dy = py (borderPoints ! Suc k) - py (borderPoints ! k)
      in dx * dx + dy * dy < 40 * 40)"

definition is_run :: "point list \<Rightarrow> nat \<Rightarrow> nat \<Rightarrow> bool" where
  "is_run borderPoints s l =
     (1 \<le> l \<and> s + l \<le> length borderPoints \<and> (\<forall>k \<in> {s ..< s + l - 1}. closeAt borderPoints k))"

definition longest_run :: "point list \<Rightarrow> nat \<Rightarrow> nat \<Rightarrow> bool" where
  "longest_run borderPoints s l =
     (is_run borderPoints s l
      \<and> (\<forall>s' \<in> {0 .. length borderPoints}. \<forall>l' \<in> {0 .. length borderPoints}.
           is_run borderPoints s' l' \<longrightarrow> l' \<le> l \<and> (l' = l \<longrightarrow> s \<le> s')))"

subsection \<open>Boxes, midpoints, centroids\<close>

text \<open>
  The box of a shape with at least one point, as the specification means it: least and
  greatest coordinate over all points of all rings.
\<close>

definition boundingBox :: "shape \<Rightarrow> bbox" where
  "boundingBox segments =
     \<lparr>bbx = Min (px ` set (concat segments)),
      bby = Min (py ` set (concat segments)),
      width = Max (px ` set (concat segments)) - Min (px ` set (concat segments)),
      height = Max (py ` set (concat segments)) - Min (py ` set (concat segments))\<rparr>"

definition bboxCenter :: "bbox \<Rightarrow> point" where
  "bboxCenter b = \<lparr>px = bbx b + width b / 2, py = bby b + height b / 2\<rparr>"

definition midpoint :: "point \<Rightarrow> point \<Rightarrow> point" where
  "midpoint p q = \<lparr>px = (px p + px q) / 2, py = (py p + py q) / 2\<rparr>"

text \<open>The centroid of a list of points, as the specification means it.\<close>

definition centroid :: "point list \<Rightarrow> point" where
  "centroid ps = \<lparr>px = sum_list (map px ps) / real (length ps), py = sum_list (map py ps) / real (length ps)\<rparr>"

subsection \<open>Shared points of two rendered paths\<close>

text \<open>
  The Euclidean distance of two points. Sample \<open>i\<close> of a rendered path is its point at
  \<open>i / 60\<close> of its total length, for \<open>i\<close> from \<open>0\<close> to \<open>60\<close>. The under-threshold pairs are
  the pairs \<open>(i, j)\<close> of the \<open>61 \<times> 61\<close> samples of the two paths less than \<open>4\<close> apart, in
  the order of the double loop (\<open>i\<close> outside, \<open>j\<close> inside); the shared points are their
  midpoints, one for each pair.
\<close>

definition distance :: "point \<Rightarrow> point \<Rightarrow> real" where
  "distance p q = sqrt ((px p - px q)\<^sup>2 + (py p - py q)\<^sup>2)"

definition samplePoint :: "svgPath \<Rightarrow> nat \<Rightarrow> point" where
  "samplePoint path i = getPointAtLength path (getTotalLength path * real i / 60)"

definition sharedPairs :: "svgPath \<Rightarrow> svgPath \<Rightarrow> (nat \<times> nat) list" where
  "sharedPairs pathA pathB =
     filter (\<lambda>(i, j). distance (samplePoint pathA i) (samplePoint pathB j) < 4)
       (List.product [0..<61] [0..<61])"

definition sharedMidpoints :: "svgPath \<Rightarrow> svgPath \<Rightarrow> point list" where
  "sharedMidpoints pathA pathB =
     map (\<lambda>(i, j). midpoint (samplePoint pathA i) (samplePoint pathB j)) (sharedPairs pathA pathB)"

subsection \<open>The cubic polynomial, and the commands of a string\<close>

text \<open>The cubic B\'ezier polynomial of the specification.\<close>

definition bezier :: "real \<Rightarrow> real \<Rightarrow> real \<Rightarrow> real \<Rightarrow> real \<Rightarrow> real" where
  "bezier a0 a1 a2 a3 t = (1 - t) ^ 3 * a0 + 3 * (1 - t) ^ 2 * t * a1 + 3 * (1 - t) * t ^ 2 * a2 + t ^ 3 * a3"

text \<open>
  The commands of a string, in upper case, in the order of their matches; and whether a curve
  command comes before the first move or line command, that is, while \<^verbatim>\<open>curPt\<close> is still
  \<^verbatim>\<open>null\<close>.
\<close>

definition commandsOf :: "string \<Rightarrow> char list" where
  "commandsOf d = map (\<lambda>m. toUpperCase (fst m)) (execAll d)"

fun curveWithoutPoint :: "char list \<Rightarrow> bool" where
  "curveWithoutPoint [] = False"
| "curveWithoutPoint (c # cs) =
     (if c = CHR ''C'' then True
      else if c = CHR ''M'' \<or> c = CHR ''L'' then False
      else curveWithoutPoint cs)"

section \<open>Auxiliary notions of the proofs\<close>

subsection \<open>Lengths and distances\<close>

text \<open>The Euclidean length of one segment, as both loops compute it.\<close>

definition segLength :: "point \<Rightarrow> point \<Rightarrow> real" where
  "segLength p q = sqrt ((px q - px p) * (px q - px p) + (py q - py p) * (py q - py p))"

text \<open>The squared distance of the inner loop, \<^verbatim>\<open>dx * dx + dy * dy\<close>.\<close>

definition sqDist :: "point \<Rightarrow> point \<Rightarrow> real" where
  "sqDist a b = (px a - px b) * (px a - px b) + (py a - py b) * (py a - py b)"

text \<open>The cumulative length of a point when the running total starts at \<open>acc\<close>.\<close>

definition cumLengthFrom :: "shape \<Rightarrow> real \<Rightarrow> nat \<Rightarrow> nat \<Rightarrow> real" where
  "cumLengthFrom segments acc k j =
     ringLength (take (Suc j) (segments ! k)) (totalLengthFrom (take k segments) acc)"

subsection \<open>Invariants\<close>

text \<open>
  The invariant of the run loop after the indices below \<open>n\<close>: the current run ends at
  \<open>n\<close> and cannot be extended to the left; the best run is a run, starts no later than
  the current one, and is a first longest run among the runs below \<open>n\<close>.
\<close>

definition runInv :: "point list \<Rightarrow> nat \<Rightarrow> nat \<times> nat \<times> nat \<times> nat \<Rightarrow> bool" where
  "runInv bp n st =
     (case st of (bs, bl, cs, cl) \<Rightarrow>
        cs + cl = n \<and> 1 \<le> cl \<and> (\<forall>k \<in> {cs ..< n - 1}. closeAt bp k)
        \<and> (cs = 0 \<or> \<not> closeAt bp (cs - 1))
        \<and> bs \<le> cs \<and> 1 \<le> bl \<and> bs + bl \<le> n \<and> (\<forall>k \<in> {bs ..< bs + bl - 1}. closeAt bp k)
        \<and> cl \<le> bl
        \<and> (\<forall>s l. 1 \<le> l \<and> s + l \<le> n \<and> (\<forall>k \<in> {s ..< s + l - 1}. closeAt bp k)
               \<longrightarrow> l \<le> bl \<and> (l = bl \<longrightarrow> bs \<le> s)))"


text \<open>Every finished ring has a point: a ring is pushed only when its length is positive.\<close>

definition ringsNonempty :: "pstate \<Rightarrow> bool" where
  "ringsNonempty st = (\<forall>r \<in> set (psegments st). r \<noteq> [])"

section \<open>Arc length: basic facts\<close>

lemma segLength_nonneg: "0 \<le> segLength p q"
  by (simp add: segLength_def)

lemma segLength_zero_iff: "segLength p q = 0 \<longleftrightarrow> p = q"
proof -
  have "(px q - px p) * (px q - px p) + (py q - py p) * (py q - py p) = 0
          \<longleftrightarrow> px q - px p = 0 \<and> py q - py p = 0"
    by (rule sum_squares_eq_zero_iff)
  then show ?thesis by (auto simp: segLength_def)
qed

lemma ringLength_step:
  "ringLength (p # q # rest) tot = ringLength (q # rest) (tot + segLength p q)"
  by (simp add: Let_def segLength_def)

lemma walkRing_step:
  "walkRing (p # q # rest) acc targetLen =
     (if acc + segLength p q \<ge> targetLen
      then Found \<lparr>px = px p + (if segLength p q > 0 then (targetLen - acc) / segLength p q else 0) * (px q - px p),
                  py = py p + (if segLength p q > 0 then (targetLen - acc) / segLength p q else 0) * (py q - py p)\<rparr>
      else walkRing (q # rest) (acc + segLength p q) targetLen)"
  by (simp add: Let_def segLength_def)

text \<open>From here on the two loops are unfolded through the step equations above.\<close>

declare ringLength.simps(1) [simp del]

declare walkRing.simps(1) [simp del]

lemma ringLength_mono: "tot \<le> ringLength seg tot"
proof (induction seg arbitrary: tot rule: induct_list012)
  case (3 p q rest)
  have "tot \<le> tot + segLength p q" using segLength_nonneg [of p q] by simp
  also have "\<dots> \<le> ringLength (q # rest) (tot + segLength p q)" by (rule "3.IH"(2))
  finally show ?case by (simp only: ringLength_step)
qed simp_all

lemma totalLengthFrom_mono: "tot \<le> totalLengthFrom segs tot"
proof (induction segs arbitrary: tot)
  case (Cons seg segs)
  have "tot \<le> ringLength seg tot" by (rule ringLength_mono)
  also have "\<dots> \<le> totalLengthFrom segs (ringLength seg tot)" by (rule Cons.IH)
  finally show ?case by simp
qed simp

lemma computeTotalLength_nonneg: "0 \<le> computeTotalLength segs"
  unfolding computeTotalLength_def by (rule totalLengthFrom_mono)

text \<open>A walk whose target lies beyond the ring's accumulated length falls through the ring.\<close>

lemma walkRing_beyond:
  "ringLength seg acc < targetLen \<Longrightarrow> walkRing seg acc targetLen = Continue (ringLength seg acc)"
proof (induction seg arbitrary: acc rule: induct_list012)
  case (3 p q rest)
  have less: "ringLength (q # rest) (acc + segLength p q) < targetLen"
    using "3.prems" by (simp only: ringLength_step)
  have "acc + segLength p q \<le> ringLength (q # rest) (acc + segLength p q)"
    by (rule ringLength_mono)
  with less have no: "\<not> acc + segLength p q \<ge> targetLen" by simp
  have "walkRing (q # rest) (acc + segLength p q) targetLen
          = Continue (ringLength (q # rest) (acc + segLength p q))"
    using less by (rule "3.IH"(2))
  with no show ?case by (simp only: walkRing_step ringLength_step if_False)
qed simp_all

lemma walkRings_beyond:
  "totalLengthFrom segs acc < targetLen \<Longrightarrow> walkRings segs acc targetLen = None"
proof (induction segs arbitrary: acc)
  case (Cons seg segs)
  have "ringLength seg acc \<le> totalLengthFrom segs (ringLength seg acc)"
    by (rule totalLengthFrom_mono)
  with Cons.prems have "ringLength seg acc < targetLen" by simp
  then have "walkRing seg acc targetLen = Continue (ringLength seg acc)"
    by (rule walkRing_beyond)
  with Cons show ?case by simp
qed simp

lemma walkRing_short: "length seg < 2 \<Longrightarrow> walkRing seg acc targetLen = Continue acc"
  by (induction seg rule: induct_list012) simp_all

lemma ringLength_short: "length seg < 2 \<Longrightarrow> ringLength seg tot = tot"
  by (induction seg rule: induct_list012) simp_all

lemma walkRings_short:
  "\<forall>seg \<in> set pre. length seg < 2 \<Longrightarrow> walkRings (pre @ segs) acc targetLen = walkRings segs acc targetLen"
  by (induction pre) (simp_all add: walkRing_short)

lemma walkRings_all_short:
  "\<forall>seg \<in> set segs. length seg < 2 \<Longrightarrow> walkRings segs acc targetLen = None"
  by (induction segs) (simp_all add: walkRing_short)

lemma walkRing_at_start:
  "walkRing (p # q # rest) acc acc = Found p"
proof -
  have "acc + segLength p q \<ge> acc" using segLength_nonneg [of p q] by simp
  then show ?thesis by (simp only: walkRing_step) simp
qed

lemma walkRings_filter_short:
  "walkRings (filter (\<lambda>seg. 2 \<le> length seg) segs) acc targetLen = walkRings segs acc targetLen"
proof (induction segs arbitrary: acc)
  case (Cons seg segs)
  then show ?case
    by (cases "2 \<le> length seg") (simp_all add: walkRing_short split: walk.split)
qed simp

lemma totalLengthFrom_filter_short:
  "totalLengthFrom (filter (\<lambda>seg. 2 \<le> length seg) segs) tot = totalLengthFrom segs tot"
proof (induction segs arbitrary: tot)
  case (Cons seg segs)
  then show ?case by (cases "2 \<le> length seg") (simp_all add: ringLength_short)
qed simp

section \<open>The end-of-walk fallback of pointAtLength\<close>

text \<open>
  Claim C5, as stated: for a shape that contains a ring with at least one point and a
  target beyond the total length, \<open>pointAtLength\<close> returns the last point of the last
  ring. The hypothesis does not reach the ring the fallback reads: with an empty last ring
  the read \<^verbatim>\<open>lastSeg[lastSeg.length - 1]\<close> is at index \<open>-1\<close> and the function returns
  \<^verbatim>\<open>undefined\<close>.
\<close>

theorem pointAtLength_overshoot_empty_last_ring:
  "(\<exists>seg \<in> set [[\<lparr>px = 0, py = 0\<rparr>], []]. seg \<noteq> [])
   \<and> computeTotalLength [[\<lparr>px = 0, py = 0\<rparr>], []] < 1
   \<and> pointAtLength [[\<lparr>px = 0, py = 0\<rparr>], []] (computeTotalLength [[\<lparr>px = 0, py = 0\<rparr>], []]) 1 = Inr None"
  by (simp add: computeTotalLength_def pointAtLength_def)

text \<open>
  Claim C5, amended: for every shape whose ring list is non-empty and whose last ring has at
  least one point, and every target strictly greater than the total length, \<open>pointAtLength\<close>
  neither throws nor reads out of range and returns the last point of the last ring.
\<close>

theorem pointAtLength_overshoot:
  assumes "segments \<noteq> []" and "last segments \<noteq> []"
    and "computeTotalLength segments < targetLen"
  shows "pointAtLength segments totalLen targetLen = Inr (Some (last (last segments)))"
proof -
  have "walkRings segments 0 targetLen = None"
    using assms(3) unfolding computeTotalLength_def by (rule walkRings_beyond)
  with assms(1,2) show ?thesis by (simp add: pointAtLength_def)
qed

theorem pointAtLength_overshoot_witness:
  "[[\<lparr>px = 0, py = 0\<rparr>, \<lparr>px = 1, py = 0\<rparr>]] \<noteq> []
   \<and> last [[\<lparr>px = 0, py = 0\<rparr>, \<lparr>px = 1, py = 0\<rparr>]] \<noteq> []
   \<and> computeTotalLength [[\<lparr>px = 0, py = 0\<rparr>, \<lparr>px = 1, py = 0\<rparr>]] < 2
   \<and> pointAtLength [[\<lparr>px = 0, py = 0\<rparr>, \<lparr>px = 1, py = 0\<rparr>]] 1 2 = Inr (Some \<lparr>px = 1, py = 0\<rparr>)"
proof -
  have len: "computeTotalLength [[\<lparr>px = 0, py = 0\<rparr>, \<lparr>px = 1, py = 0\<rparr>]] < 2"
    by (simp add: computeTotalLength_def ringLength.simps)
  have "pointAtLength [[\<lparr>px = 0, py = 0\<rparr>, \<lparr>px = 1, py = 0\<rparr>]] 1 2
          = Inr (Some (last (last [[\<lparr>px = 0, py = 0\<rparr>, \<lparr>px = 1, py = 0\<rparr>]])))"
    by (rule pointAtLength_overshoot [OF _ _ len]) simp_all
  with len show ?thesis by simp
qed

section \<open>pointAtLength at target 0\<close>

text \<open>
  Claim C10, as stated: for every shape with a non-empty ring list, at target \<open>0\<close> the
  function returns the first point of the first ring with two points, and the last point of
  the last ring when no ring has two points. The second half fails where the last ring is
  empty: there is no last point, and \<^verbatim>\<open>undefined\<close> is returned.
\<close>

theorem pointAtLength_zero_empty_ring:
  "[[]::ring] \<noteq> [] \<and> (\<exists>seg \<in> set [[]::ring]. length seg < 2)
   \<and> pointAtLength [[]] (computeTotalLength [[]]) 0 = Inr None"
  by (simp add: pointAtLength_def)

text \<open>
  Claim C10, amended: rings with fewer than two points contribute no segment, to the total
  length and to the walk alike; at target \<open>0\<close> the function returns the first point of the
  first ring that has at least two points; and when no ring has two points, the ring list is
  non-empty and the last ring has a point, it returns the last point of the last ring.
\<close>

theorem pointAtLength_zero:
  "computeTotalLength (filter (\<lambda>seg. 2 \<le> length seg) segments) = computeTotalLength segments
   \<and> walkRings (filter (\<lambda>seg. 2 \<le> length seg) segments) 0 targetLen = walkRings segments 0 targetLen
   \<and> ((\<forall>seg \<in> set pre. length seg < 2) \<and> 2 \<le> length seg
         \<longrightarrow> pointAtLength (pre @ seg # post) totalLen 0 = Inr (Some (hd seg)))
   \<and> ((\<forall>seg \<in> set segments. length seg < 2) \<and> segments \<noteq> [] \<and> last segments \<noteq> []
         \<longrightarrow> pointAtLength segments totalLen 0 = Inr (Some (last (last segments))))"
proof (intro conjI impI)
  show "computeTotalLength (filter (\<lambda>seg. 2 \<le> length seg) segments) = computeTotalLength segments"
    unfolding computeTotalLength_def by (rule totalLengthFrom_filter_short)
  show "walkRings (filter (\<lambda>seg. 2 \<le> length seg) segments) 0 targetLen = walkRings segments 0 targetLen"
    by (rule walkRings_filter_short)
  show "pointAtLength (pre @ seg # post) totalLen 0 = Inr (Some (hd seg))"
    if "(\<forall>seg \<in> set pre. length seg < 2) \<and> 2 \<le> length seg"
  proof -
    from that have short: "\<forall>seg \<in> set pre. length seg < 2" and two: "2 \<le> length seg"
      by simp_all
    from two obtain p q rest where seg: "seg = p # q # rest"
      by (induction seg rule: induct_list012) simp_all
    have "walkRings (pre @ seg # post) 0 0 = walkRings (seg # post) 0 0"
      using short by (rule walkRings_short)
    also have "\<dots> = Some p"
      unfolding seg by (simp only: walkRings.simps walkRing_at_start walk.case)
    finally show ?thesis by (simp add: pointAtLength_def seg)
  qed
  show "pointAtLength segments totalLen 0 = Inr (Some (last (last segments)))"
    if "(\<forall>seg \<in> set segments. length seg < 2) \<and> segments \<noteq> [] \<and> last segments \<noteq> []"
    using that by (simp add: pointAtLength_def walkRings_all_short)
qed

theorem pointAtLength_zero_witness:
  "pointAtLength [[\<lparr>px = 7, py = 7\<rparr>], [\<lparr>px = 1, py = 2\<rparr>, \<lparr>px = 4, py = 6\<rparr>], [\<lparr>px = 9, py = 9\<rparr>]] 5 0
     = Inr (Some \<lparr>px = 1, py = 2\<rparr>)
   \<and> pointAtLength [[\<lparr>px = 7, py = 7\<rparr>], [\<lparr>px = 9, py = 9\<rparr>]] 0 0 = Inr (Some \<lparr>px = 9, py = 9\<rparr>)"
proof -
  have "pointAtLength ([[\<lparr>px = 7, py = 7\<rparr>]] @ [\<lparr>px = 1, py = 2\<rparr>, \<lparr>px = 4, py = 6\<rparr>] # [[\<lparr>px = 9, py = 9\<rparr>]]) 5 0
          = Inr (Some (hd [\<lparr>px = 1, py = 2\<rparr>, \<lparr>px = 4, py = 6\<rparr>]))"
    using pointAtLength_zero [of "[]" 0 "[[\<lparr>px = 7, py = 7\<rparr>]]"
        "[\<lparr>px = 1, py = 2\<rparr>, \<lparr>px = 4, py = 6\<rparr>]" "[[\<lparr>px = 9, py = 9\<rparr>]]" 5]
    by simp
  moreover have "pointAtLength [[\<lparr>px = 7, py = 7\<rparr>], [\<lparr>px = 9, py = 9\<rparr>]] 0 0
          = Inr (Some (last (last [[\<lparr>px = 7, py = 7\<rparr>], [\<lparr>px = 9, py = 9\<rparr>]])))"
    using pointAtLength_zero [of "[[\<lparr>px = 7, py = 7\<rparr>], [\<lparr>px = 9, py = 9\<rparr>]]" 0 "[]" "[]" "[]" 0]
    by simp
  ultimately show ?thesis by simp
qed

section \<open>Arc-length round trip\<close>

lemma ringLength_flat:
  "ringLength seg tot = tot \<Longrightarrow> i < length seg \<Longrightarrow> seg ! i = hd seg"
proof (induction seg arbitrary: tot i rule: induct_list012)
  case (3 p q rest)
  have eq: "ringLength (q # rest) (tot + segLength p q) = tot"
    using "3.prems"(1) by (simp only: ringLength_step)
  have "tot + segLength p q \<le> ringLength (q # rest) (tot + segLength p q)"
    by (rule ringLength_mono)
  with eq segLength_nonneg [of p q] have zero: "segLength p q = 0" by simp
  then have pq: "p = q" by (simp only: segLength_zero_iff)
  from eq zero have flat: "ringLength (q # rest) tot = tot" by simp
  show ?case
  proof (cases i)
    case 0
    then show ?thesis by simp
  next
    case (Suc i')
    with "3.prems"(2) have "i' < length (q # rest)" by simp
    with flat have "(q # rest) ! i' = hd (q # rest)" by (rule "3.IH"(2))
    with Suc pq show ?thesis by simp
  qed
qed simp_all

text \<open>
  Within one ring of at least two points, the walk started at the ring's accumulated length
  and aimed at the cumulative length of the point with index \<open>j\<close> returns that point.
\<close>

lemma walkRing_cum:
  "2 \<le> length seg \<Longrightarrow> j < length seg
     \<Longrightarrow> walkRing seg acc (ringLength (take (Suc j) seg) acc) = Found (seg ! j)"
proof (induction seg arbitrary: acc j rule: induct_list012)
  case (3 p q rest)
  show ?case
  proof (cases j)
    case 0
    then show ?thesis by (simp add: walkRing_at_start)
  next
    case (Suc j')
    define L where "L = ringLength (take (Suc j') (q # rest)) (acc + segLength p q)"
    have target: "ringLength (take (Suc j) (p # q # rest)) acc = L"
      unfolding L_def Suc by (simp add: ringLength_step)
    have j': "j' < length (q # rest)" using "3.prems"(2) Suc by simp
    have lower: "acc + segLength p q \<le> L" unfolding L_def by (rule ringLength_mono)
    show ?thesis
    proof (cases "acc + segLength p q \<ge> L")
      case True
      with lower have L: "L = acc + segLength p q" by simp
      then have "ringLength (take (Suc j') (q # rest)) (acc + segLength p q) = acc + segLength p q"
        by (simp add: L_def)
      moreover have "j' < length (take (Suc j') (q # rest))" using j' by simp
      ultimately have "take (Suc j') (q # rest) ! j' = hd (take (Suc j') (q # rest))"
        by (rule ringLength_flat)
      moreover have "take (Suc j') (q # rest) ! j' = (q # rest) ! j'"
        by (rule nth_take) simp
      ultimately have at_j: "(p # q # rest) ! j = q" using Suc by simp
      have "walkRing (p # q # rest) acc L = Found q"
      proof (cases "segLength p q > 0")
        case True
        then show ?thesis by (simp only: walkRing_step L) simp
      next
        case False
        with segLength_nonneg [of p q] have "segLength p q = 0" by simp
        moreover from this have "p = q" by (simp only: segLength_zero_iff)
        ultimately show ?thesis by (simp only: walkRing_step L) simp
      qed
      with target at_j show ?thesis by simp
    next
      case False
      have "rest \<noteq> []"
      proof
        assume "rest = []"
        then have "L = acc + segLength p q" by (simp add: L_def)
        with False show False by simp
      qed
      then have two: "2 \<le> length (q # rest)" by (cases rest) simp_all
      have "walkRing (q # rest) (acc + segLength p q)
              (ringLength (take (Suc j') (q # rest)) (acc + segLength p q)) = Found ((q # rest) ! j')"
        using two j' by (rule "3.IH"(2))
      then have "walkRing (p # q # rest) acc L = Found ((q # rest) ! j')"
        using False by (simp only: walkRing_step L_def if_False)
      with target Suc show ?thesis by simp
    qed
  qed
qed simp_all

lemma walkRings_prefix_beyond:
  "totalLengthFrom pre acc < targetLen
     \<Longrightarrow> walkRings (pre @ segs) acc targetLen = walkRings segs (totalLengthFrom pre acc) targetLen"
proof (induction pre arbitrary: acc)
  case (Cons seg pre)
  have "ringLength seg acc \<le> totalLengthFrom pre (ringLength seg acc)"
    by (rule totalLengthFrom_mono)
  with Cons.prems have "ringLength seg acc < targetLen" by simp
  then have "walkRing seg acc targetLen = Continue (ringLength seg acc)"
    by (rule walkRing_beyond)
  with Cons show ?case by simp
qed simp

lemma walkRings_cum:
  assumes k: "k < length segments" and j: "j < length (segments ! k)"
    and pos: "totalLengthFrom (take k segments) 0 < cumLengthAt segments k j"
  shows "walkRings segments 0 (cumLengthAt segments k j) = Some (segments ! k ! j)"
proof -
  define acc where "acc = totalLengthFrom (take k segments) 0"
  define seg where "seg = segments ! k"
  have L: "cumLengthAt segments k j = ringLength (take (Suc j) seg) acc"
    by (simp add: cumLengthAt_def acc_def seg_def)
  have split: "segments = take k segments @ seg # drop (Suc k) segments"
    unfolding seg_def using k by (simp add: id_take_nth_drop)
  have two: "2 \<le> length seg"
  proof (rule ccontr)
    assume "\<not> 2 \<le> length seg"
    then have "length (take (Suc j) seg) < 2" by simp
    then have "ringLength (take (Suc j) seg) acc = acc" by (rule ringLength_short)
    with pos L show False by (simp add: acc_def)
  qed
  have found: "walkRing seg acc (ringLength (take (Suc j) seg) acc) = Found (seg ! j)"
    using two j unfolding seg_def by (rule walkRing_cum)
  have "walkRings segments 0 (cumLengthAt segments k j)
          = walkRings (take k segments @ seg # drop (Suc k) segments) 0 (cumLengthAt segments k j)"
    using split by simp
  also have "\<dots> = walkRings (seg # drop (Suc k) segments) acc (cumLengthAt segments k j)"
    unfolding acc_def using pos by (rule walkRings_prefix_beyond)
  also have "\<dots> = Some (seg ! j)"
    using found by (simp add: L)
  finally show ?thesis by (simp add: seg_def)
qed

lemma pointAtLength_single_ring:
  assumes "j < length seg"
  shows "pointAtLength [seg] totalLen (cumLengthAt [seg] 0 j) = Inr (Some (seg ! j))"
proof (cases "2 \<le> length seg")
  case True
  then have "walkRing seg 0 (ringLength (take (Suc j) seg) 0) = Found (seg ! j)"
    using assms by (rule walkRing_cum)
  then show ?thesis by (simp add: pointAtLength_def cumLengthAt_def)
next
  case False
  with assms have one: "length seg = 1" and j0: "j = 0" by simp_all
  then obtain p where "seg = [p]" by (cases seg) simp_all
  with j0 show ?thesis by (simp add: pointAtLength_def cumLengthAt_def)
qed

lemma cumLengthAt_last:
  "segments \<noteq> [] \<Longrightarrow>
     cumLengthAt segments (length segments - 1) (length (last segments) - 1) = computeTotalLength segments"
proof -
  assume ne: "segments \<noteq> []"
  then have sp: "segments = butlast segments @ [last segments]" by simp
  have tk: "take (length segments - 1) segments = butlast segments"
    by (simp add: butlast_conv_take)
  have nth: "segments ! (length segments - 1) = last segments"
    using ne by (simp add: last_conv_nth)
  have "totalLengthFrom (pre @ [seg]) tot = ringLength seg (totalLengthFrom pre tot)" for pre seg tot
    by (induction pre arbitrary: tot) simp_all
  then have "computeTotalLength segments = ringLength (last segments) (totalLengthFrom (butlast segments) 0)"
    unfolding computeTotalLength_def by (subst sp) simp
  moreover have "take (Suc (length (last segments) - 1)) (last segments) = last segments"
    by simp
  ultimately show ?thesis
    unfolding cumLengthAt_def tk nth by simp
qed

lemma cumLengthAt_cumLengthFrom: "cumLengthAt segments k j = cumLengthFrom segments 0 k j"
  by (simp add: cumLengthAt_def cumLengthFrom_def)

lemma cumLengthFrom_Suc:
  "cumLengthFrom (seg # segs) acc (Suc k) j = cumLengthFrom segs (ringLength seg acc) k j"
  by (simp add: cumLengthFrom_def)

lemma cumLengthFrom_0:
  "cumLengthFrom (seg # segs) acc 0 j = ringLength (take (Suc j) seg) acc"
  by (simp add: cumLengthFrom_def)

lemma totalLengthFrom_short:
  "\<forall>r \<in> set segs. length r < 2 \<Longrightarrow> totalLengthFrom segs tot = tot"
  by (induction segs) (simp_all add: ringLength_short)

lemma cumLengthFrom_lower: "acc \<le> cumLengthFrom segs acc k j"
proof -
  have "acc \<le> totalLengthFrom (take k segs) acc" by (rule totalLengthFrom_mono)
  also have "\<dots> \<le> cumLengthFrom segs acc k j"
    unfolding cumLengthFrom_def by (rule ringLength_mono)
  finally show ?thesis .
qed

lemma cumLengthFrom_start:
  assumes "k < length segs" and "\<forall>r \<in> set (take k segs). length r < 2"
  shows "cumLengthFrom segs acc k 0 = acc"
proof -
  have "length (take (Suc 0) (segs ! k)) < 2" by simp
  then have "ringLength (take (Suc 0) (segs ! k)) (totalLengthFrom (take k segs) acc)
      = totalLengthFrom (take k segs) acc"
    by (rule ringLength_short)
  with assms(2) show ?thesis by (simp add: cumLengthFrom_def totalLengthFrom_short)
qed

text \<open>
  A walk aimed at the length accumulated so far returns the first point of the first ring
  with two points, if there is one.
\<close>

lemma walkRings_at_acc:
  "(\<exists>k. k < length segs \<and> 2 \<le> length (segs ! k) \<and> (\<forall>r \<in> set (take k segs). length r < 2)
        \<and> walkRings segs acc acc = Some (segs ! k ! 0))
   \<or> ((\<forall>r \<in> set segs. length r < 2) \<and> walkRings segs acc acc = None)"
proof (induction segs)
  case (Cons seg segs)
  show ?case
  proof (cases "2 \<le> length seg")
    case True
    then obtain p seg' where "seg = p # seg'" by (cases seg) simp_all
    moreover from this True obtain q rest where "seg' = q # rest" by (cases seg') simp_all
    ultimately have seg: "seg = p # q # rest" by simp
    have "walkRings (seg # segs) acc acc = Some ((seg # segs) ! 0 ! 0)"
      by (simp add: seg walkRing_at_start)
    with True have "0 < length (seg # segs) \<and> 2 \<le> length ((seg # segs) ! 0)
        \<and> (\<forall>r \<in> set (take 0 (seg # segs)). length r < 2)
        \<and> walkRings (seg # segs) acc acc = Some ((seg # segs) ! 0 ! 0)"
      by simp
    then show ?thesis by blast
  next
    case False
    then have short: "length seg < 2" by simp
    then have step: "walkRings (seg # segs) acc acc = walkRings segs acc acc"
      by (simp add: walkRing_short)
    from Cons.IH show ?thesis
    proof
      assume "\<exists>k. k < length segs \<and> 2 \<le> length (segs ! k) \<and> (\<forall>r \<in> set (take k segs). length r < 2)
        \<and> walkRings segs acc acc = Some (segs ! k ! 0)"
      then obtain k where "k < length segs" "2 \<le> length (segs ! k)"
        "\<forall>r \<in> set (take k segs). length r < 2" "walkRings segs acc acc = Some (segs ! k ! 0)"
        by blast
      with short step have "Suc k < length (seg # segs) \<and> 2 \<le> length ((seg # segs) ! Suc k)
        \<and> (\<forall>r \<in> set (take (Suc k) (seg # segs)). length r < 2)
        \<and> walkRings (seg # segs) acc acc = Some ((seg # segs) ! Suc k ! 0)"
        by simp
      then show ?thesis by blast
    next
      assume "(\<forall>r \<in> set segs. length r < 2) \<and> walkRings segs acc acc = None"
      with short step show ?thesis by simp
    qed
  qed
qed simp

text \<open>
  A walk aimed at the cumulative length of a point returns a point at that cumulative
  length, unless no ring has two points.
\<close>

lemma walkRings_same_length:
  "k < length segs \<Longrightarrow> j < length (segs ! k) \<Longrightarrow>
     (\<exists>k' j'. k' < length segs \<and> j' < length (segs ! k')
        \<and> cumLengthFrom segs acc k' j' = cumLengthFrom segs acc k j
        \<and> walkRings segs acc (cumLengthFrom segs acc k j) = Some (segs ! k' ! j'))
     \<or> ((\<forall>r \<in> set segs. length r < 2) \<and> walkRings segs acc (cumLengthFrom segs acc k j) = None)"
proof (induction segs arbitrary: acc k)
  case (Cons seg segs)
  let ?L = "cumLengthFrom (seg # segs) acc k j"
  text \<open>What the rest of the walk gives is lifted over the first ring.\<close>
  have lift: ?case
    if walk: "walkRings (seg # segs) acc ?L = walkRings segs acc' ?L"
      and base: "\<And>k' j'. cumLengthFrom (seg # segs) acc (Suc k') j' = cumLengthFrom segs acc' k' j'"
      and short: "(\<forall>r \<in> set segs. length r < 2) \<longrightarrow> length seg < 2"
      and rest: "(\<exists>k' j'. k' < length segs \<and> j' < length (segs ! k')
          \<and> cumLengthFrom segs acc' k' j' = ?L
          \<and> walkRings segs acc' ?L = Some (segs ! k' ! j'))
        \<or> ((\<forall>r \<in> set segs. length r < 2) \<and> walkRings segs acc' ?L = None)"
    for acc'
    using rest
  proof
    assume "\<exists>k' j'. k' < length segs \<and> j' < length (segs ! k')
          \<and> cumLengthFrom segs acc' k' j' = ?L
          \<and> walkRings segs acc' ?L = Some (segs ! k' ! j')"
    then obtain k' j' where "k' < length segs" "j' < length (segs ! k')"
      "cumLengthFrom segs acc' k' j' = ?L" "walkRings segs acc' ?L = Some (segs ! k' ! j')"
      by blast
    with walk base [of k' j'] have "Suc k' < length (seg # segs) \<and> j' < length ((seg # segs) ! Suc k')
        \<and> cumLengthFrom (seg # segs) acc (Suc k') j' = ?L
        \<and> walkRings (seg # segs) acc ?L = Some ((seg # segs) ! Suc k' ! j')"
      by simp
    then show ?thesis by blast
  next
    assume "(\<forall>r \<in> set segs. length r < 2) \<and> walkRings segs acc' ?L = None"
    with walk short show ?thesis by simp
  qed
  show ?case
  proof (cases k)
    case 0
    with Cons.prems have j: "j < length seg" by simp
    have L: "?L = ringLength (take (Suc j) seg) acc" unfolding 0 by (rule cumLengthFrom_0)
    show ?thesis
    proof (cases "2 \<le> length seg")
      case True
      then have "walkRing seg acc ?L = Found (seg ! j)"
        unfolding L using j by (rule walkRing_cum)
      then have "walkRings (seg # segs) acc ?L = Some ((seg # segs) ! 0 ! j)" by simp
      with j have "0 < length (seg # segs) \<and> j < length ((seg # segs) ! 0)
          \<and> cumLengthFrom (seg # segs) acc 0 j = ?L
          \<and> walkRings (seg # segs) acc ?L = Some ((seg # segs) ! 0 ! j)"
        unfolding 0 by simp
      then show ?thesis by blast
    next
      case False
      then have short: "length seg < 2" by simp
      then have "length (take (Suc j) seg) < 2" by simp
      then have La: "?L = acc" unfolding L by (rule ringLength_short)
      have walk: "walkRings (seg # segs) acc ?L = walkRings segs acc ?L"
        using short by (simp add: walkRing_short)
      have base: "cumLengthFrom (seg # segs) acc (Suc k') j' = cumLengthFrom segs acc k' j'" for k' j'
        using short by (simp add: cumLengthFrom_Suc ringLength_short)
      from walkRings_at_acc [of segs acc]
      have "(\<exists>k' j'. k' < length segs \<and> j' < length (segs ! k')
          \<and> cumLengthFrom segs acc k' j' = ?L
          \<and> walkRings segs acc ?L = Some (segs ! k' ! j'))
        \<or> ((\<forall>r \<in> set segs. length r < 2) \<and> walkRings segs acc ?L = None)"
      proof
        assume "\<exists>k. k < length segs \<and> 2 \<le> length (segs ! k) \<and> (\<forall>r \<in> set (take k segs). length r < 2)
          \<and> walkRings segs acc acc = Some (segs ! k ! 0)"
        then obtain k' where k': "k' < length segs" "2 \<le> length (segs ! k')"
          "\<forall>r \<in> set (take k' segs). length r < 2" "walkRings segs acc acc = Some (segs ! k' ! 0)"
          by blast
        from k'(1,3) have "cumLengthFrom segs acc k' 0 = acc" by (rule cumLengthFrom_start)
        moreover from k'(2) have "0 < length (segs ! k')" by linarith
        ultimately have "k' < length segs \<and> 0 < length (segs ! k')
          \<and> cumLengthFrom segs acc k' 0 = ?L
          \<and> walkRings segs acc ?L = Some (segs ! k' ! 0)"
          using k' unfolding La by simp
        then show ?thesis by blast
      next
        assume "(\<forall>r \<in> set segs. length r < 2) \<and> walkRings segs acc acc = None"
        then show ?thesis unfolding La by simp
      qed
      with walk base show ?thesis using short by (intro lift [of acc]) simp_all
    qed
  next
    case (Suc k0)
    with Cons.prems have k0: "k0 < length segs" and j: "j < length (segs ! k0)" by simp_all
    define acc1 where "acc1 = ringLength seg acc"
    have L: "?L = cumLengthFrom segs acc1 k0 j"
      unfolding Suc acc1_def by (rule cumLengthFrom_Suc)
    have low: "acc1 \<le> ?L" unfolding L by (rule cumLengthFrom_lower)
    have base: "cumLengthFrom (seg # segs) acc (Suc k') j' = cumLengthFrom segs acc1 k' j'" for k' j'
      unfolding acc1_def by (rule cumLengthFrom_Suc)
    from Cons.IH [OF k0 j, of acc1]
    have rest: "(\<exists>k' j'. k' < length segs \<and> j' < length (segs ! k')
          \<and> cumLengthFrom segs acc1 k' j' = ?L
          \<and> walkRings segs acc1 ?L = Some (segs ! k' ! j'))
        \<or> ((\<forall>r \<in> set segs. length r < 2) \<and> walkRings segs acc1 ?L = None)"
      unfolding L .
    show ?thesis
    proof (cases "2 \<le> length seg \<and> acc1 = ?L")
      case True
      then have two: "2 \<le> length seg" and eq: "?L = ringLength seg acc"
        by (simp_all add: acc1_def)
      have lastj: "length seg - 1 < length seg" using two by simp
      have tk: "take (Suc (length seg - 1)) seg = seg" using two by simp
      from two lastj have "walkRing seg acc (ringLength (take (Suc (length seg - 1)) seg) acc)
          = Found (seg ! (length seg - 1))"
        by (rule walkRing_cum)
      then have "walkRing seg acc ?L = Found (seg ! (length seg - 1))"
        unfolding tk eq .
      then have "walkRings (seg # segs) acc ?L = Some ((seg # segs) ! 0 ! (length seg - 1))"
        by simp
      moreover have "cumLengthFrom (seg # segs) acc 0 (length seg - 1) = ?L"
        unfolding eq by (simp only: cumLengthFrom_0 tk)
      ultimately have "0 < length (seg # segs) \<and> length seg - 1 < length ((seg # segs) ! 0)
          \<and> cumLengthFrom (seg # segs) acc 0 (length seg - 1) = ?L
          \<and> walkRings (seg # segs) acc ?L = Some ((seg # segs) ! 0 ! (length seg - 1))"
        using lastj by simp
      then show ?thesis by blast
    next
      case False
      have walk: "walkRings (seg # segs) acc ?L = walkRings segs acc1 ?L"
      proof (cases "acc1 = ?L")
        case True
        with False have short: "length seg < 2" by simp
        then have "acc1 = acc" unfolding acc1_def by (rule ringLength_short)
        with short show ?thesis by (simp add: walkRing_short)
      next
        case False
        with low have "ringLength seg acc < ?L" by (simp add: acc1_def)
        then have "walkRing seg acc ?L = Continue (ringLength seg acc)" by (rule walkRing_beyond)
        then show ?thesis by (simp add: acc1_def)
      qed
      have short: "(\<forall>r \<in> set segs. length r < 2) \<longrightarrow> length seg < 2"
      proof
        assume all: "\<forall>r \<in> set segs. length r < 2"
        then have "\<forall>r \<in> set (take k0 segs). length r < 2" by (auto dest: in_set_takeD)
        then have "totalLengthFrom (take k0 segs) acc1 = acc1" by (rule totalLengthFrom_short)
        moreover have "length (take (Suc j) (segs ! k0)) < 2"
        proof -
          from k0 have "segs ! k0 \<in> set segs" by simp
          with all have "length (segs ! k0) < 2" by blast
          then show ?thesis by simp
        qed
        ultimately have "cumLengthFrom segs acc1 k0 j = acc1"
          unfolding cumLengthFrom_def by (simp only: ringLength_short)
        with L have "?L = acc1" by simp
        with False show "length seg < 2" by simp
      qed
      from walk base short rest show ?thesis by (rule lift)
    qed
  qed
qed simp


text \<open>
  The segment on which the walk returns, and the fraction it uses there: the segment from
  the point with index \<open>j\<close> to the next one, when the target lies above the cumulative
  length of the former and not above that of the latter; and the first segment of the ring,
  when the target does not lie above the cumulative length of its end.
\<close>

lemma ringLength_take_Suc:
  "Suc j < length seg \<Longrightarrow>
     ringLength (take (Suc (Suc j)) seg) acc
       = ringLength (take (Suc j) seg) acc + segLength (seg ! j) (seg ! Suc j)"
proof (induction seg arbitrary: acc j rule: induct_list012)
  case (3 p q rest)
  show ?case
  proof (cases j)
    case 0
    then show ?thesis by (simp add: ringLength_step)
  next
    case (Suc j')
    with "3.prems" have "Suc j' < length (q # rest)" by simp
    then have "ringLength (take (Suc (Suc j')) (q # rest)) (acc + segLength p q)
       = ringLength (take (Suc j') (q # rest)) (acc + segLength p q)
           + segLength ((q # rest) ! j') ((q # rest) ! Suc j')"
      by (rule "3.IH"(2))
    then show ?thesis unfolding Suc by (simp add: ringLength_step)
  qed
qed simp_all

lemma walkRing_interpolate:
  "Suc j < length seg \<Longrightarrow> targetLen \<le> ringLength (take (Suc (Suc j)) seg) acc
     \<Longrightarrow> ringLength (take (Suc j) seg) acc < targetLen \<or> j = 0
     \<Longrightarrow> walkRing seg acc targetLen
           = Found (interpolate (seg ! j) (seg ! Suc j)
               (if segLength (seg ! j) (seg ! Suc j) > 0
                then (targetLen - ringLength (take (Suc j) seg) acc) / segLength (seg ! j) (seg ! Suc j)
                else 0))"
proof (induction seg arbitrary: acc j rule: induct_list012)
  case (3 p q rest)
  show ?case
  proof (cases j)
    case 0
    with "3.prems"(2) have "targetLen \<le> acc + segLength p q" by (simp add: ringLength_step)
    then show ?thesis unfolding 0 by (simp add: walkRing_step interpolate_def)
  next
    case (Suc j')
    with "3.prems"(3) have above: "ringLength (take (Suc j') (q # rest)) (acc + segLength p q) < targetLen"
      by (simp add: ringLength_step)
    have "acc + segLength p q \<le> ringLength (take (Suc j') (q # rest)) (acc + segLength p q)"
      by (rule ringLength_mono)
    with above have no: "\<not> acc + segLength p q \<ge> targetLen" by simp
    have j': "Suc j' < length (q # rest)" using "3.prems"(1) Suc by simp
    have below: "targetLen \<le> ringLength (take (Suc (Suc j')) (q # rest)) (acc + segLength p q)"
      using "3.prems"(2) unfolding Suc by (simp add: ringLength_step)
    from above have "ringLength (take (Suc j') (q # rest)) (acc + segLength p q) < targetLen \<or> j' = 0"
      by simp
    with j' below have "walkRing (q # rest) (acc + segLength p q) targetLen
           = Found (interpolate ((q # rest) ! j') ((q # rest) ! Suc j')
               (if segLength ((q # rest) ! j') ((q # rest) ! Suc j') > 0
                then (targetLen - ringLength (take (Suc j') (q # rest)) (acc + segLength p q))
                       / segLength ((q # rest) ! j') ((q # rest) ! Suc j')
                else 0))"
      by (rule "3.IH"(2))
    with no show ?thesis unfolding Suc by (simp add: walkRing_step ringLength_step)
  qed
qed simp_all

lemma walkRings_interpolate:
  assumes k: "k < length segments" and j: "Suc j < length (segments ! k)"
    and below: "targetLen \<le> cumLengthAt segments k (Suc j)"
    and above: "cumLengthAt segments k j < targetLen
                \<or> ((\<forall>r \<in> set (take k segments). length r < 2) \<and> j = 0)"
  shows "walkRings segments 0 targetLen
           = Some (interpolate (segments ! k ! j) (segments ! k ! Suc j)
               (if segLength (segments ! k ! j) (segments ! k ! Suc j) > 0
                then (targetLen - cumLengthAt segments k j) / segLength (segments ! k ! j) (segments ! k ! Suc j)
                else 0))"
proof -
  define acc where "acc = totalLengthFrom (take k segments) 0"
  define seg where "seg = segments ! k"
  have split: "segments = take k segments @ seg # drop (Suc k) segments"
    unfolding seg_def using k by (simp add: id_take_nth_drop)
  have cj: "cumLengthAt segments k j = ringLength (take (Suc j) seg) acc"
    and cj1: "cumLengthAt segments k (Suc j) = ringLength (take (Suc (Suc j)) seg) acc"
    by (simp_all add: cumLengthAt_def acc_def seg_def)
  have prefix: "walkRings (take k segments @ seg # drop (Suc k) segments) 0 targetLen
      = walkRings (seg # drop (Suc k) segments) acc targetLen"
    using above
  proof
    assume a: "cumLengthAt segments k j < targetLen"
    have "acc \<le> ringLength (take (Suc j) seg) acc" by (rule ringLength_mono)
    with a have "totalLengthFrom (take k segments) 0 < targetLen"
      unfolding cj acc_def by simp
    then show ?thesis unfolding acc_def by (rule walkRings_prefix_beyond)
  next
    assume a: "(\<forall>r \<in> set (take k segments). length r < 2) \<and> j = 0"
    then have "acc = 0" unfolding acc_def by (simp add: totalLengthFrom_short)
    with a show ?thesis by (simp add: walkRings_short)
  qed
  have "ringLength (take (Suc j) seg) acc < targetLen \<or> j = 0"
    using above unfolding cj by blast
  with j below have "walkRing seg acc targetLen
           = Found (interpolate (seg ! j) (seg ! Suc j)
               (if segLength (seg ! j) (seg ! Suc j) > 0
                then (targetLen - ringLength (take (Suc j) seg) acc) / segLength (seg ! j) (seg ! Suc j)
                else 0))"
    unfolding cj1 seg_def by (intro walkRing_interpolate)
  then have "walkRings (seg # drop (Suc k) segments) acc targetLen
           = Some (interpolate (seg ! j) (seg ! Suc j)
               (if segLength (seg ! j) (seg ! Suc j) > 0
                then (targetLen - ringLength (take (Suc j) seg) acc) / segLength (seg ! j) (seg ! Suc j)
                else 0))"
    by simp
  with prefix split show ?thesis unfolding cj seg_def by simp
qed


lemma segLength_interpolate:
  assumes "f \<le> 1"
  shows "segLength (interpolate p q f) q = (1 - f) * segLength p q"
proof -
  have "(px q - px (interpolate p q f)) * (px q - px (interpolate p q f))
        + (py q - py (interpolate p q f)) * (py q - py (interpolate p q f))
      = (1 - f)\<^sup>2 * ((px q - px p) * (px q - px p) + (py q - py p) * (py q - py p))"
    by (simp add: interpolate_def power2_eq_square algebra_simps)
  then have "segLength (interpolate p q f) q = \<bar>1 - f\<bar> * segLength p q"
    unfolding segLength_def by (simp add: real_sqrt_mult)
  with assms show ?thesis by simp
qed

lemma cumLengthAt_all_short:
  assumes "\<forall>r \<in> set segments. length r < 2" and "k < length segments"
  shows "cumLengthAt segments k j = 0"
proof -
  from assms have "length (segments ! k) < 2" by simp
  then have "length (take (Suc j) (segments ! k)) < 2" by simp
  moreover from assms(1) have "\<forall>r \<in> set (take k segments). length r < 2"
    by (auto dest: in_set_takeD)
  ultimately show ?thesis
    by (simp add: cumLengthAt_def ringLength_short totalLengthFrom_short)
qed

text \<open>
  Claim C6, as stated: for every non-empty shape, \<open>pointAtLength\<close> at the cumulative length
  of a point of the shape returns that point, and at the total length it returns the final
  point of the shape. Rings are not joined: the last point of one ring and the first point of
  the next lie at the same cumulative length, and the walk returns the earlier one. A trailing
  ring without length is never reached by the walk either, and a ring of one point is passed
  over: its point is returned only as the last point of the shape, when no ring has two
  points.
\<close>

theorem pointAtLength_round_trip_two_rings:
  "cumLengthAt [[\<lparr>px = 0, py = 0\<rparr>, \<lparr>px = 1, py = 0\<rparr>], [\<lparr>px = 5, py = 5\<rparr>, \<lparr>px = 6, py = 5\<rparr>]] 1 0 = 1
   \<and> [[\<lparr>px = 0, py = 0\<rparr>, \<lparr>px = 1, py = 0\<rparr>], [\<lparr>px = 5, py = 5\<rparr>, \<lparr>px = 6, py = 5\<rparr>]] ! 1 ! 0
       = \<lparr>px = 5, py = 5\<rparr>
   \<and> pointAtLength [[\<lparr>px = 0, py = 0\<rparr>, \<lparr>px = 1, py = 0\<rparr>], [\<lparr>px = 5, py = 5\<rparr>, \<lparr>px = 6, py = 5\<rparr>]]
        (computeTotalLength [[\<lparr>px = 0, py = 0\<rparr>, \<lparr>px = 1, py = 0\<rparr>], [\<lparr>px = 5, py = 5\<rparr>, \<lparr>px = 6, py = 5\<rparr>]]) 1
       = Inr (Some \<lparr>px = 1, py = 0\<rparr>)
   \<and> computeTotalLength [[\<lparr>px = 0, py = 0\<rparr>, \<lparr>px = 1, py = 0\<rparr>], [\<lparr>px = 5, py = 5\<rparr>]] = 1
   \<and> last (last [[\<lparr>px = 0, py = 0\<rparr>, \<lparr>px = 1, py = 0\<rparr>], [\<lparr>px = 5, py = 5\<rparr>]]) = \<lparr>px = 5, py = 5\<rparr>
   \<and> pointAtLength [[\<lparr>px = 0, py = 0\<rparr>, \<lparr>px = 1, py = 0\<rparr>], [\<lparr>px = 5, py = 5\<rparr>]] 1 1
       = Inr (Some \<lparr>px = 1, py = 0\<rparr>)
   \<and> cumLengthAt [[\<lparr>px = 0, py = 0\<rparr>], [\<lparr>px = 5, py = 5\<rparr>, \<lparr>px = 6, py = 5\<rparr>]] 0 0 = 0
   \<and> pointAtLength [[\<lparr>px = 0, py = 0\<rparr>], [\<lparr>px = 5, py = 5\<rparr>, \<lparr>px = 6, py = 5\<rparr>]] 1 0
       = Inr (Some \<lparr>px = 5, py = 5\<rparr>)
   \<and> cumLengthAt [[\<lparr>px = 0, py = 0\<rparr>], [\<lparr>px = 5, py = 5\<rparr>]] 0 0 = 0
   \<and> pointAtLength [[\<lparr>px = 0, py = 0\<rparr>], [\<lparr>px = 5, py = 5\<rparr>]] 0 0
       = Inr (Some \<lparr>px = 5, py = 5\<rparr>)"
  by (simp add: cumLengthAt_def computeTotalLength_def pointAtLength_def
      ringLength.simps walkRing.simps)

text \<open>
  Claim C6, amended: \<open>pointAtLength\<close> at the cumulative length \<open>L\<close> of a point of the shape
  returns that point (over the reals exactly; the tolerance of the claim is that of the
  floating-point interpolation) in each of these cases: \<open>L\<close> is greater than the length of
  the rings before the ring of the point; or no ring before it has two points and the ring of
  the point has two; or no ring of the shape has two points and the point is in the last
  ring. This covers every point of a single ring and the first point of every shape whose
  first ring has two points. In every other case, as long as the last ring is not empty or
  some ring has two points, the returned point is a point of the shape at the same cumulative
  length \<open>L\<close>. At the total length the final point of the shape is returned when the last
  ring has positive length, or no ring before it has two points and it has two, or no ring
  has two points. The walk returns on the segment whose ends bracket the target (or on the
  first segment of the shape when its end is not below the target), at the fraction
  \<open>(targetLen - acc) / segLen\<close> of that segment, where \<open>acc\<close> is the cumulative length of its
  start, and at the fraction \<open>0\<close> when the segment has no length. A target that falls short
  of the cumulative length of a point by \<open>\<delta>\<close>, within the segment that ends at the point,
  gives a point at distance \<open>\<delta>\<close> from it.
\<close>

theorem pointAtLength_round_trip:
  "(k < length segments \<and> j < length (segments ! k)
      \<and> (totalLengthFrom (take k segments) 0 < cumLengthAt segments k j
         \<or> (\<forall>r \<in> set (take k segments). length r < 2) \<and> 2 \<le> length (segments ! k)
         \<or> (\<forall>r \<in> set segments. length r < 2) \<and> k = length segments - 1)
     \<longrightarrow> pointAtLength segments totalLen (cumLengthAt segments k j) = Inr (Some (segments ! k ! j)))
   \<and> (k < length segments \<and> j < length (segments ! k)
      \<and> (last segments \<noteq> [] \<or> (\<exists>r \<in> set segments. 2 \<le> length r))
     \<longrightarrow> (\<exists>k' j'. k' < length segments \<and> j' < length (segments ! k')
            \<and> cumLengthAt segments k' j' = cumLengthAt segments k j
            \<and> pointAtLength segments totalLen (cumLengthAt segments k j)
                = Inr (Some (segments ! k' ! j'))))
   \<and> (segments \<noteq> [] \<and> last segments \<noteq> []
      \<and> (totalLengthFrom (butlast segments) 0 < computeTotalLength segments
         \<or> (\<forall>r \<in> set (butlast segments). length r < 2) \<and> 2 \<le> length (last segments)
         \<or> (\<forall>r \<in> set segments. length r < 2))
     \<longrightarrow> pointAtLength segments totalLen (computeTotalLength segments) = Inr (Some (last (last segments))))
   \<and> (k < length segments \<and> Suc j < length (segments ! k)
      \<and> targetLen \<le> cumLengthAt segments k (Suc j)
      \<and> (cumLengthAt segments k j < targetLen
         \<or> (\<forall>r \<in> set (take k segments). length r < 2) \<and> j = 0)
     \<longrightarrow> cumLengthAt segments k (Suc j)
           = cumLengthAt segments k j + segLength (segments ! k ! j) (segments ! k ! Suc j)
         \<and> pointAtLength segments totalLen targetLen
           = Inr (Some (interpolate (segments ! k ! j) (segments ! k ! Suc j)
               (if segLength (segments ! k ! j) (segments ! k ! Suc j) > 0
                then (targetLen - cumLengthAt segments k j)
                       / segLength (segments ! k ! j) (segments ! k ! Suc j)
                else 0))))
   \<and> (k < length segments \<and> Suc j < length (segments ! k)
      \<and> cumLengthAt segments k j < targetLen \<and> targetLen \<le> cumLengthAt segments k (Suc j)
     \<longrightarrow> (\<exists>p. pointAtLength segments totalLen targetLen = Inr (Some p)
            \<and> segLength p (segments ! k ! Suc j) = cumLengthAt segments k (Suc j) - targetLen))"
proof -
  have main: "pointAtLength segs totalLen (cumLengthAt segs k j) = Inr (Some (segs ! k ! j))"
    if k: "k < length segs" and j: "j < length (segs ! k)"
      and or: "totalLengthFrom (take k segs) 0 < cumLengthAt segs k j
         \<or> (\<forall>r \<in> set (take k segs). length r < 2) \<and> 2 \<le> length (segs ! k)
         \<or> (\<forall>r \<in> set segs. length r < 2) \<and> k = length segs - 1"
    for segs k j
  proof -
    consider (above) "totalLengthFrom (take k segs) 0 < cumLengthAt segs k j"
      | (first) "\<forall>r \<in> set (take k segs). length r < 2" "2 \<le> length (segs ! k)"
      | (none) "\<forall>r \<in> set segs. length r < 2" "k = length segs - 1"
      using or by blast
    then show ?thesis
    proof cases
      case above
      with k j have "walkRings segs 0 (cumLengthAt segs k j) = Some (segs ! k ! j)"
        by (rule walkRings_cum)
      then show ?thesis by (simp add: pointAtLength_def)
    next
      case first
      have split: "segs = take k segs @ (segs ! k) # drop (Suc k) segs"
        using k by (simp add: id_take_nth_drop)
      have cum: "cumLengthAt segs k j = ringLength (take (Suc j) (segs ! k)) 0"
        using first(1) by (simp add: cumLengthAt_def totalLengthFrom_short)
      have "walkRings (take k segs @ (segs ! k) # drop (Suc k) segs) 0 (cumLengthAt segs k j)
          = walkRings ((segs ! k) # drop (Suc k) segs) 0 (cumLengthAt segs k j)"
        using first(1) by (rule walkRings_short)
      moreover have "walkRing (segs ! k) 0 (ringLength (take (Suc j) (segs ! k)) 0) = Found (segs ! k ! j)"
        using first(2) j by (rule walkRing_cum)
      ultimately have "walkRings (take k segs @ (segs ! k) # drop (Suc k) segs) 0 (cumLengthAt segs k j)
          = Some (segs ! k ! j)"
        by (simp add: cum)
      with split have "walkRings segs 0 (cumLengthAt segs k j) = Some (segs ! k ! j)"
        by simp
      then show ?thesis by (simp add: pointAtLength_def)
    next
      case none
      from k have ne: "segs \<noteq> []" by auto
      with none(2) have lst: "last segs = segs ! k" by (simp add: last_conv_nth)
      from none(1) k have "length (segs ! k) < 2" by simp
      with j have "j = 0" and one: "length (segs ! k) = 1" by simp_all
      then have "last (segs ! k) = segs ! k ! j"
        by (cases "segs ! k") simp_all
      moreover from j have "segs ! k \<noteq> []" by auto
      moreover have "walkRings segs 0 (cumLengthAt segs k j) = None"
        using none(1) by (rule walkRings_all_short)
      ultimately show ?thesis using ne lst by (simp add: pointAtLength_def)
    qed
  qed
  have general: "\<exists>k' j'. k' < length segments \<and> j' < length (segments ! k')
            \<and> cumLengthAt segments k' j' = cumLengthAt segments k j
            \<and> pointAtLength segments totalLen (cumLengthAt segments k j)
                = Inr (Some (segments ! k' ! j'))"
    if k: "k < length segments" and j: "j < length (segments ! k)"
      and some: "last segments \<noteq> [] \<or> (\<exists>r \<in> set segments. 2 \<le> length r)"
  proof -
    from walkRings_same_length [OF k j, of 0]
    have "(\<exists>k' j'. k' < length segments \<and> j' < length (segments ! k')
        \<and> cumLengthAt segments k' j' = cumLengthAt segments k j
        \<and> walkRings segments 0 (cumLengthAt segments k j) = Some (segments ! k' ! j'))
     \<or> ((\<forall>r \<in> set segments. length r < 2) \<and> walkRings segments 0 (cumLengthAt segments k j) = None)"
      by (simp only: cumLengthAt_cumLengthFrom)
    then show ?thesis
    proof
      assume "\<exists>k' j'. k' < length segments \<and> j' < length (segments ! k')
        \<and> cumLengthAt segments k' j' = cumLengthAt segments k j
        \<and> walkRings segments 0 (cumLengthAt segments k j) = Some (segments ! k' ! j')"
      then obtain k' j' where "k' < length segments" "j' < length (segments ! k')"
        "cumLengthAt segments k' j' = cumLengthAt segments k j"
        "walkRings segments 0 (cumLengthAt segments k j) = Some (segments ! k' ! j')"
        by blast
      then have "k' < length segments \<and> j' < length (segments ! k')
            \<and> cumLengthAt segments k' j' = cumLengthAt segments k j
            \<and> pointAtLength segments totalLen (cumLengthAt segments k j)
                = Inr (Some (segments ! k' ! j'))"
        by (simp add: pointAtLength_def)
      then show ?thesis by blast
    next
      assume none: "(\<forall>r \<in> set segments. length r < 2) \<and> walkRings segments 0 (cumLengthAt segments k j) = None"
      with some have lne: "last segments \<noteq> []" by (auto simp: not_le)
      from k have ne: "segments \<noteq> []" by auto
      let ?k = "length segments - 1" and ?j = "length (last segments) - 1"
      have kk: "?k < length segments" using ne by simp
      have nth: "segments ! ?k = last segments" using ne by (simp add: last_conv_nth)
      have jj: "?j < length (segments ! ?k)" unfolding nth using lne by simp
      have "cumLengthAt segments ?k ?j = 0" "cumLengthAt segments k j = 0"
        using none kk k by (simp_all add: cumLengthAt_all_short)
      moreover have "pointAtLength segments totalLen (cumLengthAt segments k j)
          = Inr (Some (segments ! ?k ! ?j))"
        using none ne lne unfolding nth by (simp add: pointAtLength_def last_conv_nth)
      ultimately have "?k < length segments \<and> ?j < length (segments ! ?k)
            \<and> cumLengthAt segments ?k ?j = cumLengthAt segments k j
            \<and> pointAtLength segments totalLen (cumLengthAt segments k j)
                = Inr (Some (segments ! ?k ! ?j))"
        using kk jj by simp
      then show ?thesis by blast
    qed
  qed
  have final: "pointAtLength segments totalLen (computeTotalLength segments) = Inr (Some (last (last segments)))"
    if ne: "segments \<noteq> []" and lne: "last segments \<noteq> []"
      and or: "totalLengthFrom (butlast segments) 0 < computeTotalLength segments
         \<or> (\<forall>r \<in> set (butlast segments). length r < 2) \<and> 2 \<le> length (last segments)
         \<or> (\<forall>r \<in> set segments. length r < 2)"
  proof -
    let ?k = "length segments - 1" and ?j = "length (last segments) - 1"
    have cum: "cumLengthAt segments ?k ?j = computeTotalLength segments"
      using ne by (rule cumLengthAt_last)
    have nth: "segments ! ?k = last segments" using ne by (simp add: last_conv_nth)
    have k: "?k < length segments" using ne by simp
    have j: "?j < length (segments ! ?k)" unfolding nth using lne by simp
    have "totalLengthFrom (take ?k segments) 0 < cumLengthAt segments ?k ?j
         \<or> (\<forall>r \<in> set (take ?k segments). length r < 2) \<and> 2 \<le> length (segments ! ?k)
         \<or> (\<forall>r \<in> set segments. length r < 2) \<and> ?k = length segments - 1"
      using or unfolding cum nth butlast_conv_take by simp
    with k j have "pointAtLength segments totalLen (cumLengthAt segments ?k ?j)
                     = Inr (Some (segments ! ?k ! ?j))"
      by (rule main)
    then show ?thesis unfolding cum nth using lne by (simp add: last_conv_nth)
  qed
  have interp: "cumLengthAt segments k (Suc j)
           = cumLengthAt segments k j + segLength (segments ! k ! j) (segments ! k ! Suc j)
         \<and> pointAtLength segments totalLen targetLen
           = Inr (Some (interpolate (segments ! k ! j) (segments ! k ! Suc j)
               (if segLength (segments ! k ! j) (segments ! k ! Suc j) > 0
                then (targetLen - cumLengthAt segments k j)
                       / segLength (segments ! k ! j) (segments ! k ! Suc j)
                else 0)))"
    if k: "k < length segments" and j: "Suc j < length (segments ! k)"
      and below: "targetLen \<le> cumLengthAt segments k (Suc j)"
      and above: "cumLengthAt segments k j < targetLen
         \<or> (\<forall>r \<in> set (take k segments). length r < 2) \<and> j = 0"
  proof -
    have "cumLengthAt segments k (Suc j)
           = cumLengthAt segments k j + segLength (segments ! k ! j) (segments ! k ! Suc j)"
      unfolding cumLengthAt_def using j by (rule ringLength_take_Suc)
    moreover have "walkRings segments 0 targetLen
           = Some (interpolate (segments ! k ! j) (segments ! k ! Suc j)
               (if segLength (segments ! k ! j) (segments ! k ! Suc j) > 0
                then (targetLen - cumLengthAt segments k j) / segLength (segments ! k ! j) (segments ! k ! Suc j)
                else 0))"
      using k j below above by (rule walkRings_interpolate)
    ultimately show ?thesis by (simp add: pointAtLength_def)
  qed
  have near: "\<exists>p. pointAtLength segments totalLen targetLen = Inr (Some p)
            \<and> segLength p (segments ! k ! Suc j) = cumLengthAt segments k (Suc j) - targetLen"
    if k: "k < length segments" and j: "Suc j < length (segments ! k)"
      and above: "cumLengthAt segments k j < targetLen"
      and below: "targetLen \<le> cumLengthAt segments k (Suc j)"
  proof -
    let ?p = "segments ! k ! j" and ?q = "segments ! k ! Suc j"
    let ?f = "(targetLen - cumLengthAt segments k j) / segLength ?p ?q"
    from above have "cumLengthAt segments k j < targetLen
         \<or> (\<forall>r \<in> set (take k segments). length r < 2) \<and> j = 0"
      by simp
    with k j below have step: "cumLengthAt segments k (Suc j) = cumLengthAt segments k j + segLength ?p ?q"
      and res: "pointAtLength segments totalLen targetLen
           = Inr (Some (interpolate ?p ?q (if segLength ?p ?q > 0 then ?f else 0)))"
      using interp by blast+
    from step above below have pos: "segLength ?p ?q > 0" by simp
    with step below have "?f \<le> 1" by (simp add: field_simps)
    then have "segLength (interpolate ?p ?q ?f) ?q = (1 - ?f) * segLength ?p ?q"
      by (rule segLength_interpolate)
    also have "\<dots> = cumLengthAt segments k (Suc j) - targetLen"
      using pos step by (simp add: field_simps)
    finally show ?thesis using res pos by simp
  qed
  from main [of k segments j] general final interp near show ?thesis by blast
qed

theorem pointAtLength_round_trip_witness:
  "cumLengthAt [[\<lparr>px = 0, py = 0\<rparr>, \<lparr>px = 1, py = 0\<rparr>], [\<lparr>px = 5, py = 5\<rparr>, \<lparr>px = 6, py = 5\<rparr>]] 1 1 = 2
   \<and> pointAtLength [[\<lparr>px = 0, py = 0\<rparr>, \<lparr>px = 1, py = 0\<rparr>], [\<lparr>px = 5, py = 5\<rparr>, \<lparr>px = 6, py = 5\<rparr>]] 2 2
       = Inr (Some \<lparr>px = 6, py = 5\<rparr>)
   \<and> cumLengthAt [[\<lparr>px = 0, py = 0\<rparr>, \<lparr>px = 1, py = 0\<rparr>], [\<lparr>px = 5, py = 5\<rparr>, \<lparr>px = 6, py = 5\<rparr>]] 0 0 = 0
   \<and> pointAtLength [[\<lparr>px = 0, py = 0\<rparr>, \<lparr>px = 1, py = 0\<rparr>], [\<lparr>px = 5, py = 5\<rparr>, \<lparr>px = 6, py = 5\<rparr>]] 2 0
       = Inr (Some \<lparr>px = 0, py = 0\<rparr>)
   \<and> cumLengthAt [[\<lparr>px = 0, py = 0\<rparr>], [\<lparr>px = 5, py = 5\<rparr>]] 1 0 = 0
   \<and> computeTotalLength [[\<lparr>px = 0, py = 0\<rparr>], [\<lparr>px = 5, py = 5\<rparr>]] = 0
   \<and> pointAtLength [[\<lparr>px = 0, py = 0\<rparr>], [\<lparr>px = 5, py = 5\<rparr>]] 0 0 = Inr (Some \<lparr>px = 5, py = 5\<rparr>)
   \<and> cumLengthAt [[\<lparr>px = 0, py = 0\<rparr>, \<lparr>px = 1, py = 0\<rparr>], [\<lparr>px = 5, py = 5\<rparr>, \<lparr>px = 6, py = 5\<rparr>]] 1 0 = 1
   \<and> (\<exists>k' j'. k' < 2 \<and> j' < 2
        \<and> cumLengthAt [[\<lparr>px = 0, py = 0\<rparr>, \<lparr>px = 1, py = 0\<rparr>], [\<lparr>px = 5, py = 5\<rparr>, \<lparr>px = 6, py = 5\<rparr>]] k' j' = 1
        \<and> pointAtLength [[\<lparr>px = 0, py = 0\<rparr>, \<lparr>px = 1, py = 0\<rparr>], [\<lparr>px = 5, py = 5\<rparr>, \<lparr>px = 6, py = 5\<rparr>]] 2 1
            = Inr (Some ([[\<lparr>px = 0, py = 0\<rparr>, \<lparr>px = 1, py = 0\<rparr>], [\<lparr>px = 5, py = 5\<rparr>, \<lparr>px = 6, py = 5\<rparr>]] ! k' ! j')))
   \<and> computeTotalLength [[\<lparr>px = 0, py = 0\<rparr>, \<lparr>px = 1, py = 0\<rparr>], [\<lparr>px = 5, py = 5\<rparr>, \<lparr>px = 6, py = 5\<rparr>]] = 2
   \<and> cumLengthAt [[\<lparr>px = 0, py = 0\<rparr>, \<lparr>px = 2, py = 0\<rparr>]] 0 1 = 2
   \<and> pointAtLength [[\<lparr>px = 0, py = 0\<rparr>, \<lparr>px = 2, py = 0\<rparr>]] 2 (1 / 2) = Inr (Some \<lparr>px = 1 / 2, py = 0\<rparr>)
   \<and> segLength \<lparr>px = 1 / 2, py = 0\<rparr> \<lparr>px = 2, py = 0\<rparr> = 2 - 1 / 2
   \<and> segLength \<lparr>px = 1, py = 1\<rparr> \<lparr>px = 1, py = 1\<rparr> = 0
   \<and> pointAtLength [[\<lparr>px = 1, py = 1\<rparr>, \<lparr>px = 1, py = 1\<rparr>, \<lparr>px = 2, py = 1\<rparr>]] 1 0
       = Inr (Some \<lparr>px = 1, py = 1\<rparr>)"
proof -
  let ?S = "[[\<lparr>px = 0, py = 0\<rparr>, \<lparr>px = 1, py = 0\<rparr>], [\<lparr>px = 5, py = 5\<rparr>, \<lparr>px = 6, py = 5\<rparr>]]"
  let ?P = "[[\<lparr>px = 0, py = 0\<rparr>], [\<lparr>px = 5, py = 5\<rparr>]]"
  let ?R = "[[\<lparr>px = 0, py = 0\<rparr>, \<lparr>px = 2, py = 0\<rparr>]]"
  let ?Z = "[[\<lparr>px = 1, py = 1\<rparr>, \<lparr>px = 1, py = 1\<rparr>, \<lparr>px = 2, py = 1\<rparr>]]"
  have cS: "cumLengthAt ?S 1 1 = 2" "cumLengthAt ?S 0 0 = 0" "cumLengthAt ?S 1 0 = 1"
      "cumLengthAt ?S 0 1 = 1"
    and tS: "totalLengthFrom (take 1 ?S) 0 = 1" "totalLengthFrom (butlast ?S) 0 = 1"
      "computeTotalLength ?S = 2"
    by (simp_all add: cumLengthAt_def computeTotalLength_def ringLength.simps)
  have cP: "cumLengthAt ?P 1 0 = 0" "computeTotalLength ?P = 0"
    by (simp_all add: cumLengthAt_def computeTotalLength_def)
  have cR: "cumLengthAt ?R 0 0 = 0" "cumLengthAt ?R 0 1 = 2"
      "segLength \<lparr>px = 0, py = 0\<rparr> \<lparr>px = 2, py = 0\<rparr> = 2"
    by (simp_all add: cumLengthAt_def ringLength.simps segLength_def)
  have cZ: "cumLengthAt ?Z 0 0 = 0" "cumLengthAt ?Z 0 1 = 0"
      "segLength \<lparr>px = 1, py = 1\<rparr> \<lparr>px = 1, py = 1\<rparr> = 0"
    by (simp_all add: cumLengthAt_def ringLength.simps segLength_def)
  have 1: "pointAtLength ?S 2 2 = Inr (Some \<lparr>px = 6, py = 5\<rparr>)"
    using pointAtLength_round_trip [where segments = ?S and k = 1 and j = 1 and totalLen = 2] cS tS by simp
  have 2: "pointAtLength ?S 2 0 = Inr (Some \<lparr>px = 0, py = 0\<rparr>)"
    using pointAtLength_round_trip [where segments = ?S and k = 0 and j = 0 and totalLen = 2] cS by simp
  have 3: "pointAtLength ?P 0 0 = Inr (Some \<lparr>px = 5, py = 5\<rparr>)"
    using pointAtLength_round_trip [where segments = ?P and k = 1 and j = 0 and totalLen = 0] cP by simp
  have 4: "\<exists>k' j'. k' < 2 \<and> j' < 2 \<and> cumLengthAt ?S k' j' = 1
      \<and> pointAtLength ?S 2 1 = Inr (Some (?S ! k' ! j'))"
  proof -
    have "\<exists>k' j'. k' < length ?S \<and> j' < length (?S ! k')
        \<and> cumLengthAt ?S k' j' = cumLengthAt ?S 1 0
        \<and> pointAtLength ?S 2 (cumLengthAt ?S 1 0) = Inr (Some (?S ! k' ! j'))"
      by (rule pointAtLength_round_trip [where segments = ?S and k = 1 and j = 0 and totalLen = 2,
            THEN conjunct2, THEN conjunct1, THEN mp]) simp
    then obtain k' j' where "k' < length ?S" "j' < length (?S ! k')"
      "cumLengthAt ?S k' j' = cumLengthAt ?S 1 0"
      "pointAtLength ?S 2 (cumLengthAt ?S 1 0) = Inr (Some (?S ! k' ! j'))"
      by blast
    moreover from this(1,2) have "j' < 2" by (cases k') simp_all
    ultimately have "k' < 2 \<and> j' < 2 \<and> cumLengthAt ?S k' j' = 1
      \<and> pointAtLength ?S 2 1 = Inr (Some (?S ! k' ! j'))"
      using cS by simp
    then show ?thesis by blast
  qed
  have 5: "pointAtLength ?R 2 (1 / 2) = Inr (Some \<lparr>px = 1 / 2, py = 0\<rparr>)"
    using pointAtLength_round_trip [where segments = ?R and k = 0 and j = 0 and totalLen = 2 and targetLen = "1 / 2"] cR
    by (simp add: interpolate_def)
  have 6: "pointAtLength ?Z 1 0 = Inr (Some \<lparr>px = 1, py = 1\<rparr>)"
    using pointAtLength_round_trip [where segments = ?Z and k = 0 and j = 0 and totalLen = 1 and targetLen = 0] cZ
    by (simp add: interpolate_def)
  have 7: "segLength \<lparr>px = 1 / 2, py = 0\<rparr> \<lparr>px = 2, py = 0\<rparr> = 2 - 1 / 2"
    using pointAtLength_round_trip [where segments = ?R and k = 0 and j = 0 and totalLen = 2 and targetLen = "1 / 2"] cR 5
    by (simp add: interpolate_def)
  from cS tS cP cR cZ 1 2 3 4 5 6 7 show ?thesis by simp
qed

section \<open>The run loop finds the first longest run\<close>

lemma runStep_closeAt:
  "1 \<le> n \<Longrightarrow> runStep bp n (bs, bl, cs, cl) =
     (if closeAt bp (n - 1)
      then (if cl + 1 > bl then (cs, cl + 1, cs, cl + 1) else (bs, bl, cs, cl + 1))
      else (if 1 > bl then (n, 1, n, 1) else (bs, bl, n, 1)))"
  by (cases n) (simp_all add: runStep_def closeAt_def Let_def)

lemma runInvI:
  assumes "cs + cl = n" and "1 \<le> cl" and "\<forall>k \<in> {cs ..< n - 1}. closeAt bp k"
    and "cs = 0 \<or> \<not> closeAt bp (cs - 1)"
    and "bs \<le> cs" and "1 \<le> bl" and "bs + bl \<le> n" and "\<forall>k \<in> {bs ..< bs + bl - 1}. closeAt bp k"
    and "cl \<le> bl"
    and "\<And>s l. 1 \<le> l \<Longrightarrow> s + l \<le> n \<Longrightarrow> \<forall>k \<in> {s ..< s + l - 1}. closeAt bp k
           \<Longrightarrow> l \<le> bl \<and> (l = bl \<longrightarrow> bs \<le> s)"
  shows "runInv bp n (bs, bl, cs, cl)"
  unfolding runInv_def using assms by blast

lemma runInv_init: "runInv bp 1 (0, 1, 0, 1)"
  by (rule runInvI) auto

lemma runInv_step:
  assumes inv: "runInv bp n st" and n: "1 \<le> n"
  shows "runInv bp (Suc n) (runStep bp n st)"
proof -
  obtain bs bl cs cl where st: "st = (bs, bl, cs, cl)" by (cases st) auto
  from inv have cur: "cs + cl = n" "1 \<le> cl" "\<forall>k \<in> {cs ..< n - 1}. closeAt bp k"
      "cs = 0 \<or> \<not> closeAt bp (cs - 1)"
    and best: "bs \<le> cs" "1 \<le> bl" "bs + bl \<le> n" "\<forall>k \<in> {bs ..< bs + bl - 1}. closeAt bp k" "cl \<le> bl"
    unfolding runInv_def st by simp_all
  from inv have all: "l \<le> bl \<and> (l = bl \<longrightarrow> bs \<le> s)"
    if "1 \<le> l" and "s + l \<le> n" and "\<forall>k \<in> {s ..< s + l - 1}. closeAt bp k" for s l
    unfolding runInv_def st using that by simp
  show ?thesis
  proof (cases "closeAt bp (n - 1)")
    case True
    have cur': "\<forall>k \<in> {cs ..< Suc n - 1}. closeAt bp k"
    proof
      fix k assume "k \<in> {cs ..< Suc n - 1}"
      then have "k \<in> {cs ..< n - 1} \<or> k = n - 1" using n by auto
      with cur(3) True show "closeAt bp k" by auto
    qed
    have ending: "cs \<le> s \<and> l \<le> cl + 1 \<and> (l = cl + 1 \<longrightarrow> s = cs)"
      if l: "1 \<le> l" and e: "s + l = Suc n" and r: "\<forall>k \<in> {s ..< s + l - 1}. closeAt bp k" for s l
    proof -
      have "cs \<le> s"
      proof (rule ccontr)
        assume "\<not> cs \<le> s"
        then have "s < cs" by simp
        then have "cs - 1 \<in> {s ..< s + l - 1}" using e cur(1,2) by auto
        with r have "closeAt bp (cs - 1)" by blast
        with cur(4) \<open>s < cs\<close> show False by auto
      qed
      with e cur(1) show ?thesis by auto
    qed
    show ?thesis
    proof (cases "cl + 1 > bl")
      case gt: True
      have "runStep bp n st = (cs, cl + 1, cs, cl + 1)"
        using n True gt by (simp add: st runStep_closeAt)
      moreover have "runInv bp (Suc n) (cs, cl + 1, cs, cl + 1)"
      proof (rule runInvI)
        show "cs + (cl + 1) = Suc n" using cur(1) by simp
        show "1 \<le> cl + 1" by simp
        show "\<forall>k \<in> {cs ..< Suc n - 1}. closeAt bp k" by (rule cur')
        show "cs = 0 \<or> \<not> closeAt bp (cs - 1)" by (rule cur(4))
        show "cs \<le> cs" by simp
        show "1 \<le> cl + 1" by simp
        show "cs + (cl + 1) \<le> Suc n" using cur(1) by simp
        show "\<forall>k \<in> {cs ..< cs + (cl + 1) - 1}. closeAt bp k" using cur' cur(1) by simp
        show "cl + 1 \<le> cl + 1" by simp
      next
        fix s l assume a: "1 \<le> l" "s + l \<le> Suc n" "\<forall>k \<in> {s ..< s + l - 1}. closeAt bp k"
        show "l \<le> cl + 1 \<and> (l = cl + 1 \<longrightarrow> cs \<le> s)"
        proof (cases "s + l = Suc n")
          case True
          with a ending [of l s] show ?thesis by simp
        next
          case False
          with a all [of l s] gt show ?thesis by simp
        qed
      qed
      ultimately show ?thesis by simp
    next
      case le: False
      have "runStep bp n st = (bs, bl, cs, cl + 1)"
        using n True le by (simp add: st runStep_closeAt)
      moreover have "runInv bp (Suc n) (bs, bl, cs, cl + 1)"
      proof (rule runInvI)
        show "cs + (cl + 1) = Suc n" using cur(1) by simp
        show "1 \<le> cl + 1" by simp
        show "\<forall>k \<in> {cs ..< Suc n - 1}. closeAt bp k" by (rule cur')
        show "cs = 0 \<or> \<not> closeAt bp (cs - 1)" by (rule cur(4))
        show "bs \<le> cs" by (rule best(1))
        show "1 \<le> bl" by (rule best(2))
        show "bs + bl \<le> Suc n" using best(3) by simp
        show "\<forall>k \<in> {bs ..< bs + bl - 1}. closeAt bp k" by (rule best(4))
        show "cl + 1 \<le> bl" using le by simp
      next
        fix s l assume a: "1 \<le> l" "s + l \<le> Suc n" "\<forall>k \<in> {s ..< s + l - 1}. closeAt bp k"
        show "l \<le> bl \<and> (l = bl \<longrightarrow> bs \<le> s)"
        proof (cases "s + l = Suc n")
          case True
          with a ending [of l s] le best(1) show ?thesis by auto
        next
          case False
          with a all [of l s] show ?thesis by simp
        qed
      qed
      ultimately show ?thesis by simp
    qed
  next
    case False
    have step: "runStep bp n st = (bs, bl, n, 1)"
      using n False best(2) by (simp add: st runStep_closeAt)
    have ending: "s = n \<and> l = 1"
      if l: "1 \<le> l" and e: "s + l = Suc n" and r: "\<forall>k \<in> {s ..< s + l - 1}. closeAt bp k" for s l
    proof (rule ccontr)
      assume "\<not> (s = n \<and> l = 1)"
      with l e have "n - 1 \<in> {s ..< s + l - 1}" using n by auto
      with r False show False by blast
    qed
    have "runInv bp (Suc n) (bs, bl, n, 1)"
    proof (rule runInvI)
      show "n + 1 = Suc n" by simp
      show "(1::nat) \<le> 1" by simp
      show "\<forall>k \<in> {n ..< Suc n - 1}. closeAt bp k" by simp
      show "n = 0 \<or> \<not> closeAt bp (n - 1)" using False by simp
      show "bs \<le> n" using best(1) cur(1) by simp
      show "1 \<le> bl" by (rule best(2))
      show "bs + bl \<le> Suc n" using best(3) by simp
      show "\<forall>k \<in> {bs ..< bs + bl - 1}. closeAt bp k" by (rule best(4))
      show "1 \<le> bl" by (rule best(2))
    next
      fix s l assume a: "1 \<le> l" "s + l \<le> Suc n" "\<forall>k \<in> {s ..< s + l - 1}. closeAt bp k"
      show "l \<le> bl \<and> (l = bl \<longrightarrow> bs \<le> s)"
      proof (cases "s + l = Suc n")
        case True
        with a ending [of l s] best(1,2) cur(1) show ?thesis by auto
      next
        case False
        with a all [of l s] show ?thesis by simp
      qed
    qed
    with step show ?thesis by simp
  qed
qed

lemma runInv_fold:
  "1 \<le> n \<Longrightarrow> runInv bp n (fold (runStep bp) [1..<n] (0, 1, 0, 1))"
proof (induction n)
  case (Suc n)
  show ?case
  proof (cases "n = 0")
    case True
    with runInv_init [of bp] show ?thesis by simp
  next
    case False
    then have n: "1 \<le> n" by simp
    then have "runInv bp n (fold (runStep bp) [1..<n] (0, 1, 0, 1))" by (rule Suc.IH)
    then have "runInv bp (Suc n) (runStep bp n (fold (runStep bp) [1..<n] (0, 1, 0, 1)))"
      using n by (rule runInv_step)
    with n show ?thesis by simp
  qed
qed simp

section \<open>The offline estimator returns the middle of the first longest run\<close>

lemma runLoop_inv: "bp \<noteq> [] \<Longrightarrow> runInv bp (length bp) (runLoop bp)"
  unfolding runLoop_def by (rule runInv_fold) (cases bp, simp_all)

lemma runLoop_longest:
  assumes ne: "bp \<noteq> []" and rl: "runLoop bp = (bs, bl, cs, cl)"
  shows "longest_run bp bs bl" and "bs + bl div 2 < length bp"
proof -
  from runLoop_inv [OF ne] rl have inv: "runInv bp (length bp) (bs, bl, cs, cl)" by simp
  then have best: "1 \<le> bl" "bs + bl \<le> length bp" "\<forall>k \<in> {bs ..< bs + bl - 1}. closeAt bp k"
    unfolding runInv_def by simp_all
  from inv have all: "l \<le> bl \<and> (l = bl \<longrightarrow> bs \<le> s)"
    if "1 \<le> l" and "s + l \<le> length bp" and "\<forall>k \<in> {s ..< s + l - 1}. closeAt bp k" for s l
    unfolding runInv_def using that by simp
  show "longest_run bp bs bl"
    unfolding longest_run_def is_run_def using best all by blast
  from best(1) have "bl div 2 < bl" by simp
  with best(2) show "bs + bl div 2 < length bp" by simp
qed

lemma longest_run_unique:
  assumes "longest_run bp s l" and "longest_run bp s' l'"
  shows "s = s' \<and> l = l'"
proof -
  from assms have r: "is_run bp s l" and r': "is_run bp s' l'"
    by (simp_all add: longest_run_def)
  then have in_range: "s \<in> {0 .. length bp}" "l \<in> {0 .. length bp}"
      "s' \<in> {0 .. length bp}" "l' \<in> {0 .. length bp}"
    by (simp_all add: is_run_def)
  from assms(1) in_range(3,4) r' have a: "l' \<le> l \<and> (l' = l \<longrightarrow> s \<le> s')"
    unfolding longest_run_def by blast
  from assms(2) in_range(1,2) r have b: "l \<le> l' \<and> (l = l' \<longrightarrow> s' \<le> s)"
    unfolding longest_run_def by blast
  from a b show ?thesis by auto
qed

lemma runLoop_all_close:
  assumes ne: "bp \<noteq> []" and close: "\<forall>k \<in> {0 ..< length bp - 1}. closeAt bp k"
  shows "\<exists>cs cl. runLoop bp = (0, length bp, cs, cl)"
proof -
  obtain bs bl cs cl where rl: "runLoop bp = (bs, bl, cs, cl)" by (cases "runLoop bp") auto
  from runLoop_longest(1) [OF ne rl] have lr: "longest_run bp bs bl" .
  then have run: "is_run bp bs bl" by (simp add: longest_run_def)
  have whole: "is_run bp 0 (length bp)"
    unfolding is_run_def using ne close by (cases bp) simp_all
  moreover have "(0::nat) \<in> {0 .. length bp}" "length bp \<in> {0 .. length bp}" by simp_all
  ultimately have "length bp \<le> bl" using lr unfolding longest_run_def by blast
  with run have "bl = length bp" "bs = 0" by (simp_all add: is_run_def)
  with rl show ?thesis by simp
qed

text \<open>
  Claim C1: whenever the first loop records at least one candidate, the estimator returns the
  candidate at index \<open>s + l div 2\<close> of the longest run \<open>(s, l)\<close> of candidates whose
  consecutive members are within squared distance \<open>40\<^sup>2\<close> (below it, as the source
  compares); among the runs of greatest length the one with the lowest start is taken; the
  index is in range, so the result is an element of the candidate list.
\<close>

theorem estimator_longest_run:
  "borderPointsOf segmentsA segmentsB = Inr borderPoints \<and> borderPoints \<noteq> []
   \<longrightarrow> (\<exists>s l. longest_run borderPoints s l)
       \<and> (\<forall>s l. longest_run borderPoints s l
            \<longrightarrow> s + l div 2 < length borderPoints
                \<and> computeBorderMidpointFromPaths segmentsA segmentsB
                    = Inr (Some (borderPoints ! (s + l div 2))))
       \<and> (\<exists>p \<in> set borderPoints. computeBorderMidpointFromPaths segmentsA segmentsB = Inr (Some p))"
proof (intro impI)
  assume a: "borderPointsOf segmentsA segmentsB = Inr borderPoints \<and> borderPoints \<noteq> []"
  then have bp: "borderPointsOf segmentsA segmentsB = Inr borderPoints" and ne: "borderPoints \<noteq> []"
    by simp_all
  obtain bs bl cs cl where rl: "runLoop borderPoints = (bs, bl, cs, cl)"
    by (cases "runLoop borderPoints") auto
  note lr = runLoop_longest [OF ne rl]
  have res: "computeBorderMidpointFromPaths segmentsA segmentsB = Inr (Some (borderPoints ! (bs + bl div 2)))"
    using bp ne rl lr(2) by (simp add: computeBorderMidpointFromPaths_def Let_def)
  have "(\<exists>s l. longest_run borderPoints s l)" using lr(1) by blast
  moreover have "\<forall>s l. longest_run borderPoints s l
            \<longrightarrow> s + l div 2 < length borderPoints
                \<and> computeBorderMidpointFromPaths segmentsA segmentsB
                    = Inr (Some (borderPoints ! (s + l div 2)))"
  proof (intro allI impI)
    fix s l assume "longest_run borderPoints s l"
    then have "s = bs \<and> l = bl" using lr(1) by (rule longest_run_unique)
    with lr(2) res show "s + l div 2 < length borderPoints
                \<and> computeBorderMidpointFromPaths segmentsA segmentsB
                    = Inr (Some (borderPoints ! (s + l div 2)))" by simp
  qed
  moreover have "\<exists>p \<in> set borderPoints. computeBorderMidpointFromPaths segmentsA segmentsB = Inr (Some p)"
    using res lr(2) by auto
  ultimately show "(\<exists>s l. longest_run borderPoints s l)
       \<and> (\<forall>s l. longest_run borderPoints s l
            \<longrightarrow> s + l div 2 < length borderPoints
                \<and> computeBorderMidpointFromPaths segmentsA segmentsB
                    = Inr (Some (borderPoints ! (s + l div 2))))
       \<and> (\<exists>p \<in> set borderPoints. computeBorderMidpointFromPaths segmentsA segmentsB = Inr (Some p))"
    by blast
qed

section \<open>Evaluating the sampling loops\<close>

lemma pointAtLength_defined:
  "segments \<noteq> [] \<Longrightarrow> last segments \<noteq> [] \<Longrightarrow> \<exists>p. pointAtLength segments totalLen targetLen = Inr (Some p)"
  by (cases "walkRings segments 0 targetLen") (simp_all add: pointAtLength_def)

text \<open>Once the best squared distance is \<open>0\<close>, no later sample replaces it.\<close>

lemma nearestLoop_zero:
  assumes "segmentsB \<noteq> []" and "last segmentsB \<noteq> []"
  shows "nearestLoop segmentsB lenB N (Some a) js (Some (0, q)) = Inr (Some (0, q))"
proof (induction js)
  case (Cons j js)
  obtain b where "pointAtLength segmentsB lenB (lenB * real j / real N) = Inr (Some b)"
    using pointAtLength_defined [OF assms] by blast
  moreover have "\<not> (px a - px b) * (px a - px b) + (py a - py b) * (py a - py b) < 0"
    by (simp add: not_less)
  ultimately show ?case using Cons.IH by (simp add: Let_def)
qed simp

text \<open>Against a shape that is one single point, the nearest sample is that point.\<close>

lemma nearestLoop_single_point_Some:
  "nearestLoop [[b]] lenB N (Some a) js
      (Some ((px a - px b) * (px a - px b) + (py a - py b) * (py a - py b), b))
     = Inr (Some ((px a - px b) * (px a - px b) + (py a - py b) * (py a - py b), b))"
  by (induction js) (simp_all add: pointAtLength_def Let_def)

lemma nearestLoop_single_point:
  "js \<noteq> [] \<Longrightarrow> nearestLoop [[b]] lenB N (Some a) js None
     = Inr (Some ((px a - px b) * (px a - px b) + (py a - py b) * (py a - py b), b))"
  by (cases js) (simp_all add: pointAtLength_def Let_def nearestLoop_single_point_Some)

text \<open>
  The outer loop, when every sample of \<open>A\<close> is defined and has a nearest sample of \<open>B\<close>
  below the threshold: one candidate per index.
\<close>

lemma borderLoop_all:
  assumes "\<And>i. i \<in> set is \<Longrightarrow>
      pointAtLength segmentsA lenA (lenA * real i / real N) = Inr (Some (f i))
      \<and> nearestLoop segmentsB lenB N (Some (f i)) [0..<Suc N] None = Inr (Some (d i, g i))
      \<and> d i < threshold * threshold"
  shows "borderLoop segmentsA segmentsB lenA lenB N threshold is acc
     = Inr (acc @ map (\<lambda>i. \<lparr>px = (px (f i) + px (g i)) / 2, py = (py (f i) + py (g i)) / 2\<rparr>) is)"
  using assms
proof (induction "is" arbitrary: acc)
  case (Cons i "is")
  from Cons.prems [of i]
  have i: "pointAtLength segmentsA lenA (lenA * real i / real N) = Inr (Some (f i))"
    "nearestLoop segmentsB lenB N (Some (f i)) [0..<Suc N] None = Inr (Some (d i, g i))"
    "d i < threshold * threshold"
    by simp_all
  have "borderLoop segmentsA segmentsB lenA lenB N threshold (i # is) acc
          = borderLoop segmentsA segmentsB lenA lenB N threshold is
              (acc @ [\<lparr>px = (px (f i) + px (g i)) / 2, py = (py (f i) + py (g i)) / 2\<rparr>])"
    using i by (simp del: upt_Suc)
  also have "\<dots> = Inr ((acc @ [\<lparr>px = (px (f i) + px (g i)) / 2, py = (py (f i) + py (g i)) / 2\<rparr>])
                       @ map (\<lambda>i. \<lparr>px = (px (f i) + px (g i)) / 2, py = (py (f i) + py (g i)) / 2\<rparr>) is)"
    by (rule Cons.IH) (simp add: Cons.prems del: upt_Suc)
  finally show ?case by simp
qed simp

text \<open>The outer loop, when no sample of \<open>A\<close> has a sample of \<open>B\<close> below the threshold.\<close>

lemma borderLoop_none:
  assumes "\<And>i. i \<in> set is \<Longrightarrow>
      \<exists>ptA d q. pointAtLength segmentsA lenA (lenA * real i / real N) = Inr ptA
      \<and> nearestLoop segmentsB lenB N ptA [0..<Suc N] None = Inr (Some (d, q))
      \<and> \<not> d < threshold * threshold"
  shows "borderLoop segmentsA segmentsB lenA lenB N threshold is acc = Inr acc"
  using assms
proof (induction "is" arbitrary: acc)
  case (Cons i "is")
  from Cons.prems [of i] obtain ptA d q
    where i: "pointAtLength segmentsA lenA (lenA * real i / real N) = Inr ptA"
      "nearestLoop segmentsB lenB N ptA [0..<Suc N] None = Inr (Some (d, q))"
      "\<not> d < threshold * threshold"
    by auto
  have "borderLoop segmentsA segmentsB lenA lenB N threshold (i # is) acc
          = borderLoop segmentsA segmentsB lenA lenB N threshold is acc"
    using i by (simp del: upt_Suc)
  also have "\<dots> = Inr acc"
  proof (rule Cons.IH)
    fix k assume "k \<in> set is"
    then have "k \<in> set (i # is)" by simp
    then show "\<exists>ptA d q. pointAtLength segmentsA lenA (lenA * real k / real N) = Inr ptA
      \<and> nearestLoop segmentsB lenB N ptA [0..<Suc N] None = Inr (Some (d, q))
      \<and> \<not> d < threshold * threshold"
      by (rule Cons.prems)
  qed
  finally show ?case .
qed simp

lemma borderPointsOf_unfold:
  "borderPointsOf segmentsA segmentsB =
     borderLoop segmentsA segmentsB (computeTotalLength segmentsA) (computeTotalLength segmentsB)
       200 5 [0..<Suc 200] []"
  unfolding borderPointsOf_def Let_def ..

lemma longest_run_all_close:
  assumes ne: "bp \<noteq> []" and close: "\<forall>k \<in> {0 ..< length bp - 1}. closeAt bp k"
  shows "longest_run bp 0 (length bp)"
proof -
  obtain cs cl where rl: "runLoop bp = (0, length bp, cs, cl)"
    using runLoop_all_close [OF ne close] by blast
  with ne show ?thesis by (rule runLoop_longest(1))
qed

subsection \<open>A point and a unit segment\<close>

text \<open>
  The shape \<open>[[(0,0)]]\<close> is one ring of one point; the shape \<open>[[(0,0), (1,0)]]\<close> is one
  ring of one segment of length \<open>1\<close>.
\<close>

lemma length_point_shape: "computeTotalLength [[\<lparr>px = 0, py = 0\<rparr>]] = 0"
  by (simp add: computeTotalLength_def)

lemma length_unit_segment: "computeTotalLength [[\<lparr>px = 0, py = 0\<rparr>, \<lparr>px = 1, py = 0\<rparr>]] = 1"
  by (simp add: computeTotalLength_def ringLength_step segLength_def)

lemma sample_point_shape: "pointAtLength [[p]] totalLen targetLen = Inr (Some p)"
  by (simp add: pointAtLength_def)

lemma sample_unit_segment:
  "i \<le> 200 \<Longrightarrow> pointAtLength [[\<lparr>px = 0, py = 0\<rparr>, \<lparr>px = 1, py = 0\<rparr>]] 1 (1 * real i / real 200)
     = Inr (Some \<lparr>px = real i / 200, py = 0\<rparr>)"
  by (simp add: pointAtLength_def walkRing_step segLength_def)

lemma candidates_segment_point:
  "borderPointsOf [[\<lparr>px = 0, py = 0\<rparr>, \<lparr>px = 1, py = 0\<rparr>]] [[\<lparr>px = 0, py = 0\<rparr>]]
     = Inr (map (\<lambda>i. \<lparr>px = real i / 400, py = 0\<rparr>) [0..<Suc 200])"
proof -
  let ?f = "\<lambda>i. \<lparr>px = real i / 200, py = 0\<rparr>"
  let ?g = "\<lambda>i::nat. \<lparr>px = 0, py = 0\<rparr>"
  let ?d = "\<lambda>i. (px (?f i) - 0) * (px (?f i) - 0) + (py (?f i) - 0) * (py (?f i) - 0)"
  have "borderLoop [[\<lparr>px = 0, py = 0\<rparr>, \<lparr>px = 1, py = 0\<rparr>]] [[\<lparr>px = 0, py = 0\<rparr>]] 1 0 200 5 [0..<Suc 200] []
          = Inr ([] @ map (\<lambda>i. \<lparr>px = (px (?f i) + px (?g i)) / 2, py = (py (?f i) + py (?g i)) / 2\<rparr>) [0..<Suc 200])"
  proof (rule borderLoop_all [where d = ?d])
    fix i assume "i \<in> set [0..<Suc 200]"
    then have i: "i \<le> 200" by simp
    then have "real i \<le> 200" by simp
    then have "real i / 200 * (real i / 200) \<le> 1 * 1"
      by (intro mult_mono) simp_all
    then have small: "?d i < 5 * 5" by simp
    have "nearestLoop [[\<lparr>px = 0, py = 0\<rparr>]] 0 200 (Some (?f i)) [0..<Suc 200] None
            = Inr (Some ((px (?f i) - px (?g i)) * (px (?f i) - px (?g i))
                          + (py (?f i) - py (?g i)) * (py (?f i) - py (?g i)), ?g i))"
      by (rule nearestLoop_single_point) simp
    then have "nearestLoop [[\<lparr>px = 0, py = 0\<rparr>]] 0 200 (Some (?f i)) [0..<Suc 200] None
            = Inr (Some (?d i, ?g i))"
      by simp
    with sample_unit_segment [OF i] small
    show "pointAtLength [[\<lparr>px = 0, py = 0\<rparr>, \<lparr>px = 1, py = 0\<rparr>]] 1 (1 * real i / real 200) = Inr (Some (?f i))
      \<and> nearestLoop [[\<lparr>px = 0, py = 0\<rparr>]] 0 200 (Some (?f i)) [0..<Suc 200] None = Inr (Some (?d i, ?g i))
      \<and> ?d i < 5 * 5"
      by blast
  qed
  then show ?thesis
    by (simp add: borderPointsOf_unfold length_point_shape length_unit_segment del: upt_Suc)
qed

lemma candidates_segment_point_close:
  "\<forall>k \<in> {0 ..< length (map (\<lambda>i. \<lparr>px = real i / 400, py = 0\<rparr>) [0..<Suc 200]) - 1}.
     closeAt (map (\<lambda>i. \<lparr>px = real i / 400, py = 0\<rparr>) [0..<Suc 200]) k"
proof
  fix k assume "k \<in> {0 ..< length (map (\<lambda>i. \<lparr>px = real i / 400, py = 0\<rparr>) [0..<Suc 200]) - 1}"
  then have k: "k < 200" by simp
  then have "map (\<lambda>i. \<lparr>px = real i / 400, py = 0\<rparr>) [0..<Suc 200] ! k = \<lparr>px = real k / 400, py = 0\<rparr>"
    and "map (\<lambda>i. \<lparr>px = real i / 400, py = 0\<rparr>) [0..<Suc 200] ! Suc k = \<lparr>px = real (Suc k) / 400, py = 0\<rparr>"
    by (simp_all del: upt_Suc)
  then show "closeAt (map (\<lambda>i. \<lparr>px = real i / 400, py = 0\<rparr>) [0..<Suc 200]) k"
    unfolding closeAt_def by (simp add: field_simps del: upt_Suc)
qed

lemma estimate_segment_point:
  "computeBorderMidpointFromPaths [[\<lparr>px = 0, py = 0\<rparr>, \<lparr>px = 1, py = 0\<rparr>]] [[\<lparr>px = 0, py = 0\<rparr>]]
     = Inr (Some \<lparr>px = 1 / 4, py = 0\<rparr>)"
proof -
  let ?bp = "map (\<lambda>i. \<lparr>px = real i / 400, py = 0\<rparr>) [0..<Suc 200]"
  have ne: "?bp \<noteq> []" by simp
  obtain cs cl where rl: "runLoop ?bp = (0, length ?bp, cs, cl)"
    using runLoop_all_close [OF ne candidates_segment_point_close] by blast
  have "?bp ! 100 = \<lparr>px = real 100 / 400, py = 0\<rparr>"
    by (simp del: upt_Suc)
  then show ?thesis
    using rl by (simp add: computeBorderMidpointFromPaths_def candidates_segment_point del: upt_Suc)
qed

lemma candidates_point_segment:
  "borderPointsOf [[\<lparr>px = 0, py = 0\<rparr>]] [[\<lparr>px = 0, py = 0\<rparr>, \<lparr>px = 1, py = 0\<rparr>]]
     = Inr (map (\<lambda>i. \<lparr>px = 0, py = 0\<rparr>) [0..<Suc 200])"
proof -
  let ?o = "\<lparr>px = 0, py = 0\<rparr>"
  let ?B = "[[\<lparr>px = 0, py = 0\<rparr>, \<lparr>px = 1, py = 0\<rparr>]]"
  have first: "pointAtLength ?B 1 (1 * real 0 / real 200) = Inr (Some ?o)"
    using sample_unit_segment [of 0] by simp
  have "nearestLoop ?B 1 200 (Some ?o) (0 # [Suc 0..<Suc 200]) None
          = nearestLoop ?B 1 200 (Some ?o) [Suc 0..<Suc 200] (Some (0, ?o))"
    using first by (simp del: upt_Suc)
  also have "\<dots> = Inr (Some (0, ?o))"
    by (rule nearestLoop_zero) simp_all
  finally have near: "nearestLoop ?B 1 200 (Some ?o) [0..<Suc 200] None = Inr (Some (0, ?o))"
    by (simp only: upt_conv_Cons [of 0 "Suc 200"] zero_less_Suc)
  have "borderLoop [[?o]] ?B 0 1 200 5 [0..<Suc 200] []
          = Inr ([] @ map (\<lambda>i. \<lparr>px = (px ?o + px ?o) / 2, py = (py ?o + py ?o) / 2\<rparr>) [0..<Suc 200])"
  proof (rule borderLoop_all [where d = "\<lambda>i. 0" and f = "\<lambda>i. ?o" and g = "\<lambda>i. ?o"])
    fix i :: nat
    show "pointAtLength [[?o]] 0 (0 * real i / real 200) = Inr (Some ?o)
      \<and> nearestLoop ?B 1 200 (Some ?o) [0..<Suc 200] None = Inr (Some (0, ?o))
      \<and> (0::real) < 5 * 5"
      using near by (simp add: sample_point_shape del: upt_Suc)
  qed
  then show ?thesis
    by (simp add: borderPointsOf_unfold length_point_shape length_unit_segment del: upt_Suc)
qed

lemma estimate_point_segment:
  "computeBorderMidpointFromPaths [[\<lparr>px = 0, py = 0\<rparr>]] [[\<lparr>px = 0, py = 0\<rparr>, \<lparr>px = 1, py = 0\<rparr>]]
     = Inr (Some \<lparr>px = 0, py = 0\<rparr>)"
proof -
  let ?bp = "map (\<lambda>i::nat. \<lparr>px = 0, py = 0\<rparr>) [0..<Suc 200]"
  have ne: "?bp \<noteq> []" by simp
  obtain bs bl cs cl where rl: "runLoop ?bp = (bs, bl, cs, cl)"
    by (cases "runLoop ?bp") auto
  have idx: "bs + bl div 2 < length ?bp"
    using ne rl by (rule runLoop_longest(2))
  then have "?bp ! (bs + bl div 2) = \<lparr>px = 0, py = 0\<rparr>"
    by (simp del: upt_Suc)
  with idx rl show ?thesis
    by (simp add: computeBorderMidpointFromPaths_def candidates_point_segment del: upt_Suc)
qed

text \<open>
  Claim C8, as stated: the estimator returns the same point for \<open>(A, B)\<close> and \<open>(B, A)\<close>.
  The candidates are sampled along the first shape, in its walking order; with a single point
  as \<open>A\<close> and a unit segment from that point as \<open>B\<close>, every candidate of \<open>(A, B)\<close> is
  the point itself, while the candidates of \<open>(B, A)\<close> spread over half the segment and the
  middle one is returned.
\<close>

theorem estimator_not_symmetric:
  "computeBorderMidpointFromPaths [[\<lparr>px = 0, py = 0\<rparr>]] [[\<lparr>px = 0, py = 0\<rparr>, \<lparr>px = 1, py = 0\<rparr>]]
     = Inr (Some \<lparr>px = 0, py = 0\<rparr>)
   \<and> computeBorderMidpointFromPaths [[\<lparr>px = 0, py = 0\<rparr>, \<lparr>px = 1, py = 0\<rparr>]] [[\<lparr>px = 0, py = 0\<rparr>]]
     = Inr (Some \<lparr>px = 1 / 4, py = 0\<rparr>)
   \<and> computeBorderMidpointFromPaths [[\<lparr>px = 0, py = 0\<rparr>]] [[\<lparr>px = 0, py = 0\<rparr>, \<lparr>px = 1, py = 0\<rparr>]]
     \<noteq> computeBorderMidpointFromPaths [[\<lparr>px = 0, py = 0\<rparr>, \<lparr>px = 1, py = 0\<rparr>]] [[\<lparr>px = 0, py = 0\<rparr>]]"
  by (simp add: estimate_point_segment estimate_segment_point)

theorem estimator_longest_run_witness:
  "borderPointsOf [[\<lparr>px = 0, py = 0\<rparr>, \<lparr>px = 1, py = 0\<rparr>]] [[\<lparr>px = 0, py = 0\<rparr>]]
     = Inr (map (\<lambda>i. \<lparr>px = real i / 400, py = 0\<rparr>) [0..<Suc 200])
   \<and> longest_run (map (\<lambda>i. \<lparr>px = real i / 400, py = 0\<rparr>) [0..<Suc 200]) 0 201
   \<and> computeBorderMidpointFromPaths [[\<lparr>px = 0, py = 0\<rparr>, \<lparr>px = 1, py = 0\<rparr>]] [[\<lparr>px = 0, py = 0\<rparr>]]
     = Inr (Some \<lparr>px = 1 / 4, py = 0\<rparr>)"
proof -
  let ?bp = "map (\<lambda>i. \<lparr>px = real i / 400, py = 0\<rparr>) [0..<Suc 200]"
  have ne: "?bp \<noteq> []" by simp
  have "longest_run ?bp 0 (length ?bp)"
    using ne candidates_segment_point_close by (rule longest_run_all_close)
  then have lr: "longest_run ?bp 0 201" by simp
  have at: "?bp ! 100 = \<lparr>px = real 100 / 400, py = 0\<rparr>"
    by (simp del: upt_Suc)
  from estimator_longest_run [of "[[\<lparr>px = 0, py = 0\<rparr>, \<lparr>px = 1, py = 0\<rparr>]]" "[[\<lparr>px = 0, py = 0\<rparr>]]" ?bp]
    candidates_segment_point ne
  have "\<forall>s l. longest_run ?bp s l
          \<longrightarrow> s + l div 2 < length ?bp
              \<and> computeBorderMidpointFromPaths [[\<lparr>px = 0, py = 0\<rparr>, \<lparr>px = 1, py = 0\<rparr>]] [[\<lparr>px = 0, py = 0\<rparr>]]
                  = Inr (Some (?bp ! (s + l div 2)))"
    by blast
  with lr have "computeBorderMidpointFromPaths [[\<lparr>px = 0, py = 0\<rparr>, \<lparr>px = 1, py = 0\<rparr>]] [[\<lparr>px = 0, py = 0\<rparr>]]
                  = Inr (Some (?bp ! (0 + 201 div 2)))"
    by blast
  with at have "computeBorderMidpointFromPaths [[\<lparr>px = 0, py = 0\<rparr>, \<lparr>px = 1, py = 0\<rparr>]] [[\<lparr>px = 0, py = 0\<rparr>]]
                  = Inr (Some \<lparr>px = 1 / 4, py = 0\<rparr>)"
    by (simp del: upt_Suc)
  with candidates_segment_point lr show ?thesis by blast
qed

section \<open>The nearest-sample loop computes a minimum\<close>

lemma sqDist_commute: "sqDist a b = sqDist b a"
  by (simp add: sqDist_def algebra_simps)

lemma nearestLoop_step:
  "pointAtLength segmentsB lenB (lenB * real j / real N) = Inr (Some b) \<Longrightarrow>
     nearestLoop segmentsB lenB N (Some a) (j # js) best =
       nearestLoop segmentsB lenB N (Some a) js
         (if (case best of None \<Rightarrow> True | Some (bestDist, bestPt) \<Rightarrow> sqDist a b < bestDist)
          then Some (sqDist a b, b) else best)"
  unfolding sqDist_def by (simp add: Let_def)

lemma nearestLoop_defined:
  assumes "nearestLoop segmentsB lenB N ptA js best = Inr r" and "j \<in> set js"
  shows "ptA \<noteq> None \<and> (\<exists>b. pointAtLength segmentsB lenB (lenB * real j / real N) = Inr (Some b))"
  using assms
proof (induction js arbitrary: best)
  case (Cons k js)
  from Cons.prems(1) obtain a b where a: "ptA = Some a"
    and b: "pointAtLength segmentsB lenB (lenB * real k / real N) = Inr (Some b)"
    by (auto split: sum.splits option.splits)
  show ?case
  proof (cases "j = k")
    case True
    with a b show ?thesis by simp
  next
    case False
    with Cons.prems(2) have j: "j \<in> set js" by simp
    from Cons.prems(1) obtain best' where "nearestLoop segmentsB lenB N ptA js best' = Inr r"
      unfolding a by (simp only: nearestLoop_step [OF b])
    then show ?thesis using j by (rule Cons.IH)
  qed
qed simp_all

lemma nearestLoop_lower:
  assumes "nearestLoop segmentsB lenB N (Some a) js best = Inr (Some (d, q))"
  shows "(\<forall>j \<in> set js. \<forall>b. pointAtLength segmentsB lenB (lenB * real j / real N) = Inr (Some b)
            \<longrightarrow> d \<le> sqDist a b)
         \<and> (\<forall>bd bq. best = Some (bd, bq) \<longrightarrow> d \<le> bd)"
  using assms
proof (induction js arbitrary: best)
  case (Cons k js)
  from Cons.prems have "k \<in> set (k # js)" by simp
  with Cons.prems obtain b where b: "pointAtLength segmentsB lenB (lenB * real k / real N) = Inr (Some b)"
    using nearestLoop_defined by blast
  define best' where "best' = (if (case best of None \<Rightarrow> True | Some (bestDist, bestPt) \<Rightarrow> sqDist a b < bestDist)
          then Some (sqDist a b, b) else best)"
  from Cons.prems have "nearestLoop segmentsB lenB N (Some a) js best' = Inr (Some (d, q))"
    by (simp only: nearestLoop_step [OF b] best'_def)
  then have IH: "\<forall>j \<in> set js. \<forall>b. pointAtLength segmentsB lenB (lenB * real j / real N) = Inr (Some b)
            \<longrightarrow> d \<le> sqDist a b"
      "\<forall>bd bq. best' = Some (bd, bq) \<longrightarrow> d \<le> bd"
    using Cons.IH by blast+
  have here: "d \<le> sqDist a b" and old: "\<forall>bd bq. best = Some (bd, bq) \<longrightarrow> d \<le> bd"
    using IH(2) unfolding best'_def by (auto split: option.splits if_splits)
  from here b have "\<forall>c. pointAtLength segmentsB lenB (lenB * real k / real N) = Inr (Some c) \<longrightarrow> d \<le> sqDist a c"
    by simp
  with IH(1) old show ?case by simp
qed simp

lemma nearestLoop_upper:
  assumes "\<forall>j \<in> set js. \<exists>b. pointAtLength segmentsB lenB (lenB * real j / real N) = Inr (Some b)
             \<and> c \<le> sqDist a b"
    and "\<forall>bd bq. best = Some (bd, bq) \<longrightarrow> c \<le> bd"
    and "js \<noteq> [] \<or> best \<noteq> None"
  shows "\<exists>d q. nearestLoop segmentsB lenB N (Some a) js best = Inr (Some (d, q)) \<and> c \<le> d"
  using assms
proof (induction js arbitrary: best)
  case Nil
  then show ?case by auto
next
  case (Cons k js)
  from Cons.prems(1) obtain b where b: "pointAtLength segmentsB lenB (lenB * real k / real N) = Inr (Some b)"
    and cb: "c \<le> sqDist a b" by auto
  define best' where "best' = (if (case best of None \<Rightarrow> True | Some (bestDist, bestPt) \<Rightarrow> sqDist a b < bestDist)
          then Some (sqDist a b, b) else best)"
  have 1: "\<forall>j \<in> set js. \<exists>b. pointAtLength segmentsB lenB (lenB * real j / real N) = Inr (Some b)
             \<and> c \<le> sqDist a b"
    using Cons.prems(1) by simp
  have 2: "\<forall>bd bq. best' = Some (bd, bq) \<longrightarrow> c \<le> bd"
    using Cons.prems(2) cb unfolding best'_def by (auto split: option.splits if_splits)
  have 3: "js \<noteq> [] \<or> best' \<noteq> None"
    unfolding best'_def by (auto split: option.splits)
  from Cons.IH [OF 1 2 3] show ?case
    by (simp only: nearestLoop_step [OF b] best'_def)
qed

section \<open>Inverting the candidate loop\<close>

lemma borderLoop_extends:
  "borderLoop segmentsA segmentsB lenA lenB N threshold is acc = Inr bp \<Longrightarrow> \<exists>ext. bp = acc @ ext"
proof (induction "is" arbitrary: acc)
  case (Cons i "is")
  from Cons.prems consider
    "borderLoop segmentsA segmentsB lenA lenB N threshold is acc = Inr bp"
    | c where "borderLoop segmentsA segmentsB lenA lenB N threshold is (acc @ [c]) = Inr bp"
    by (auto simp del: upt_Suc split: sum.splits option.splits if_splits)
  then show ?case
  proof cases
    case 1
    then show ?thesis by (rule Cons.IH)
  next
    case 2
    then have "\<exists>ext. bp = (acc @ [c]) @ ext" by (rule Cons.IH)
    then show ?thesis by auto
  qed
qed simp

text \<open>
  When the loop ends without a new candidate, every sample of \<open>A\<close> and every sample of
  \<open>B\<close> is defined, and every pair of samples is at squared distance at least
  \<open>threshold\<^sup>2\<close>.
\<close>

lemma borderLoop_no_candidate:
  assumes "borderLoop segmentsA segmentsB lenA lenB N threshold is acc = Inr acc" and "i \<in> set is"
  shows "\<exists>a. pointAtLength segmentsA lenA (lenA * real i / real N) = Inr (Some a)
           \<and> (\<forall>j \<in> set [0..<Suc N]. \<exists>b. pointAtLength segmentsB lenB (lenB * real j / real N) = Inr (Some b)
                 \<and> threshold * threshold \<le> sqDist a b)"
  using assms
proof (induction "is")
  case (Cons k "is")
  from Cons.prems(1) obtain ptA r where ptA: "pointAtLength segmentsA lenA (lenA * real k / real N) = Inr ptA"
    and r: "nearestLoop segmentsB lenB N ptA [0..<Suc N] None = Inr r"
    by (auto simp del: upt_Suc split: sum.splits)
  have def: "ptA \<noteq> None \<and> (\<exists>b. pointAtLength segmentsB lenB (lenB * real j / real N) = Inr (Some b))"
    if "j \<in> set [0..<Suc N]" for j
    using r that by (rule nearestLoop_defined)
  from def [of 0] obtain a where a: "ptA = Some a" by auto
  have "\<exists>d q. nearestLoop segmentsB lenB N (Some a) [0..<Suc N] None = Inr (Some (d, q)) \<and> 0 \<le> d"
  proof (rule nearestLoop_upper)
    show "\<forall>j \<in> set [0..<Suc N]. \<exists>b. pointAtLength segmentsB lenB (lenB * real j / real N) = Inr (Some b)
             \<and> 0 \<le> sqDist a b"
      using def by (auto simp: sqDist_def simp del: upt_Suc)
    show "\<forall>bd bq. None = Some (bd, bq) \<longrightarrow> 0 \<le> bd" by simp
    show "[0..<Suc N] \<noteq> [] \<or> (None :: (real \<times> point) option) \<noteq> None" by auto
  qed
  then obtain d q where dq: "nearestLoop segmentsB lenB N (Some a) [0..<Suc N] None = Inr (Some (d, q))"
    by blast
  have no_push: "\<not> d < threshold * threshold"
  proof
    assume "d < threshold * threshold"
    with Cons.prems(1) ptA a dq obtain c
      where "borderLoop segmentsA segmentsB lenA lenB N threshold is (acc @ [c]) = Inr acc"
      by (auto simp del: upt_Suc)
    then have "\<exists>ext. acc = (acc @ [c]) @ ext" by (rule borderLoop_extends)
    then show False by simp
  qed
  with Cons.prems(1) ptA a dq
  have rest: "borderLoop segmentsA segmentsB lenA lenB N threshold is acc = Inr acc"
    by (simp del: upt_Suc)
  show ?case
  proof (cases "i = k")
    case True
    have "\<exists>b. pointAtLength segmentsB lenB (lenB * real j / real N) = Inr (Some b)
                 \<and> threshold * threshold \<le> sqDist a b" if j: "j \<in> set [0..<Suc N]" for j
    proof -
      from def [OF j] obtain b where b: "pointAtLength segmentsB lenB (lenB * real j / real N) = Inr (Some b)"
        by blast
      with nearestLoop_lower [OF dq] j have "d \<le> sqDist a b" by blast
      with no_push b show ?thesis by auto
    qed
    with ptA a True show ?thesis by blast
  next
    case False
    with Cons.prems(2) have "i \<in> set is" by simp
    with rest show ?thesis by (rule Cons.IH)
  qed
qed simp

lemma borderLoop_swap_none:
  assumes "borderLoop segmentsA segmentsB lenA lenB N threshold [0..<Suc N] [] = Inr []"
  shows "borderLoop segmentsB segmentsA lenB lenA N threshold [0..<Suc N] [] = Inr []"
proof (rule borderLoop_none)
  fix j assume j: "j \<in> set [0..<Suc N]"
  note far = borderLoop_no_candidate [OF assms]
  have zero: "0 \<in> set [0..<Suc N]" by auto
  from far [OF zero] j obtain b where b: "pointAtLength segmentsB lenB (lenB * real j / real N) = Inr (Some b)"
    by blast
  have "\<exists>d q. nearestLoop segmentsA lenA N (Some b) [0..<Suc N] None = Inr (Some (d, q))
          \<and> threshold * threshold \<le> d"
  proof (rule nearestLoop_upper)
    show "\<forall>i \<in> set [0..<Suc N]. \<exists>a. pointAtLength segmentsA lenA (lenA * real i / real N) = Inr (Some a)
             \<and> threshold * threshold \<le> sqDist b a"
    proof
      fix i assume "i \<in> set [0..<Suc N]"
      from far [OF this] j b obtain a where "pointAtLength segmentsA lenA (lenA * real i / real N) = Inr (Some a)"
        and "threshold * threshold \<le> sqDist a b" by force
      then show "\<exists>a. pointAtLength segmentsA lenA (lenA * real i / real N) = Inr (Some a)
             \<and> threshold * threshold \<le> sqDist b a"
        by (auto simp: sqDist_commute)
    qed
    show "\<forall>bd bq. None = Some (bd, bq) \<longrightarrow> threshold * threshold \<le> bd" by simp
    show "[0..<Suc N] \<noteq> [] \<or> (None :: (real \<times> point) option) \<noteq> None" by auto
  qed
  with b show "\<exists>ptB d q. pointAtLength segmentsB lenB (lenB * real j / real N) = Inr ptB
      \<and> nearestLoop segmentsA lenA N ptB [0..<Suc N] None = Inr (Some (d, q))
      \<and> \<not> d < threshold * threshold"
    by (auto simp: not_less)
qed

section \<open>The bounding box\<close>

lemma fold_lowerTo_Some:
  "fold (\<lambda>p m. lowerTo m (f p)) ps (Some v) = Some (Min (insert v (f ` set ps)))"
proof (induction ps arbitrary: v)
  case (Cons p ps)
  have "lowerTo (Some v) (f p) = Some (min (f p) v)"
    by (simp add: lowerTo_def min_def)
  then have "fold (\<lambda>p m. lowerTo m (f p)) (p # ps) (Some v) = Some (Min (insert (min (f p) v) (f ` set ps)))"
    by (simp add: Cons.IH)
  also have "Min (insert (min (f p) v) (f ` set ps)) = Min (insert v (f ` set (p # ps)))"
  proof (cases "ps = []")
    case True
    then show ?thesis by (simp add: min.commute)
  next
    case False
    then show ?thesis by (simp add: Min_insert min.assoc min.left_commute min.commute)
  qed
  finally show ?case .
qed simp

lemma fold_raiseTo_Some:
  "fold (\<lambda>p m. raiseTo m (f p)) ps (Some v) = Some (Max (insert v (f ` set ps)))"
proof (induction ps arbitrary: v)
  case (Cons p ps)
  have "raiseTo (Some v) (f p) = Some (max (f p) v)"
    by (simp add: raiseTo_def max_def)
  then have "fold (\<lambda>p m. raiseTo m (f p)) (p # ps) (Some v) = Some (Max (insert (max (f p) v) (f ` set ps)))"
    by (simp add: Cons.IH)
  also have "Max (insert (max (f p) v) (f ` set ps)) = Max (insert v (f ` set (p # ps)))"
  proof (cases "ps = []")
    case True
    then show ?thesis by (simp add: max.commute)
  next
    case False
    then show ?thesis by (simp add: Max_insert max.assoc max.left_commute max.commute)
  qed
  finally show ?case .
qed simp

lemma lowerTo_None: "lowerTo None v = Some v"
  by (simp add: lowerTo_def)

lemma raiseTo_None: "raiseTo None v = Some v"
  by (simp add: raiseTo_def)

lemma fold_lowerTo_None:
  "ps \<noteq> [] \<Longrightarrow> fold (\<lambda>p m. lowerTo m (f p)) ps None = Some (Min (f ` set ps))"
  by (cases ps) (simp_all add: lowerTo_None fold_lowerTo_Some)

lemma fold_raiseTo_None:
  "ps \<noteq> [] \<Longrightarrow> fold (\<lambda>p m. raiseTo m (f p)) ps None = Some (Max (f ` set ps))"
  by (cases ps) (simp_all add: raiseTo_None fold_raiseTo_Some)

lemma fold_boundsPoint:
  "fold boundsPoint ps b =
     \<lparr>minX = fold (\<lambda>p m. lowerTo m (px p)) ps (minX b),
      minY = fold (\<lambda>p m. lowerTo m (py p)) ps (minY b),
      maxX = fold (\<lambda>p m. raiseTo m (px p)) ps (maxX b),
      maxY = fold (\<lambda>p m. raiseTo m (py p)) ps (maxY b)\<rparr>"
  by (induction ps arbitrary: b) (simp_all add: boundsPoint_def)

lemma fold_rings:
  "fold (\<lambda>seg b. fold f seg b) segments b = fold f (concat segments) b"
  by (induction segments arbitrary: b) simp_all

lemma boundsOf_concat:
  "boundsOf segments = fold boundsPoint (concat segments) \<lparr>minX = None, minY = None, maxX = None, maxY = None\<rparr>"
  unfolding boundsOf_def by (rule fold_rings)

lemma computeBBox_boundingBox:
  "concat segments \<noteq> [] \<Longrightarrow> computeBBox segments = Some (boundingBox segments)"
  by (simp add: computeBBox_def boundsOf_concat fold_boundsPoint fold_lowerTo_None fold_raiseTo_None
      boundingBox_def)

lemma walkRings_Some_nonempty: "walkRings segments acc targetLen = Some p \<Longrightarrow> concat segments \<noteq> []"
proof (induction segments arbitrary: acc)
  case (Cons seg segments)
  show ?case
  proof (cases seg)
    case Nil
    with Cons show ?thesis by simp
  next
    case (Cons q qs)
    then show ?thesis by simp
  qed
qed simp

lemma pointAtLength_Some_nonempty:
  assumes "pointAtLength segments totalLen targetLen = Inr (Some p)"
  shows "concat segments \<noteq> []"
proof (cases "walkRings segments 0 targetLen")
  case None
  with assms have "segments \<noteq> []" and "last segments \<noteq> []"
    by (auto simp: pointAtLength_def split: if_splits)
  then have "last segments \<in> set segments" by simp
  with \<open>last segments \<noteq> []\<close> show ?thesis by auto
next
  case (Some q)
  then show ?thesis by (rule walkRings_Some_nonempty)
qed

lemma no_candidate_nonempty:
  assumes "borderPointsOf segmentsA segmentsB = Inr []"
  shows "concat segmentsA \<noteq> []" and "concat segmentsB \<noteq> []"
proof -
  have zero: "0 \<in> set [0..<Suc 200]" by auto
  from assms have "borderLoop segmentsA segmentsB (computeTotalLength segmentsA)
      (computeTotalLength segmentsB) 200 5 [0..<Suc 200] [] = Inr []"
    by (simp only: borderPointsOf_unfold)
  from borderLoop_no_candidate [OF this zero] zero
  obtain a b where a: "pointAtLength segmentsA (computeTotalLength segmentsA)
        (computeTotalLength segmentsA * real 0 / real 200) = Inr (Some a)"
    and b: "pointAtLength segmentsB (computeTotalLength segmentsB)
        (computeTotalLength segmentsB * real 0 / real 200) = Inr (Some b)"
    by blast
  from a show "concat segmentsA \<noteq> []" by (rule pointAtLength_Some_nonempty)
  from b show "concat segmentsB \<noteq> []" by (rule pointAtLength_Some_nonempty)
qed

lemma estimate_no_candidate:
  assumes "borderPointsOf segmentsA segmentsB = Inr []"
  shows "computeBorderMidpointFromPaths segmentsA segmentsB
     = Inr (Some (midpoint (bboxCenter (boundingBox segmentsA)) (bboxCenter (boundingBox segmentsB))))"
  using assms no_candidate_nonempty [OF assms]
  by (simp add: computeBorderMidpointFromPaths_def computeBBox_boundingBox midpoint_def bboxCenter_def)

text \<open>The estimator never leaves the reals: the bounding boxes it reads are finite.\<close>

lemma computeBorderMidpointFromPaths_finite:
  "computeBorderMidpointFromPaths segmentsA segmentsB \<noteq> Inl NonFinite"
proof (cases "borderPointsOf segmentsA segmentsB")
  case (Inl e)
  have "borderLoop segmentsA segmentsB lenA lenB N threshold is acc \<noteq> Inl NonFinite"
    for lenA lenB N threshold "is" acc
  proof (induction "is" arbitrary: acc)
    case (Cons i "is")
    have "nearestLoop segmentsB lenB N ptA js best \<noteq> Inl NonFinite" for ptA js best
      by (induction js arbitrary: best)
         (auto simp: pointAtLength_def Let_def split: sum.splits option.splits if_splits)
    with Cons show ?case
      by (auto simp: pointAtLength_def simp del: upt_Suc split: sum.splits option.splits if_splits)
  qed simp
  with Inl show ?thesis
    by (auto simp: computeBorderMidpointFromPaths_def borderPointsOf_unfold)
next
  case (Inr bp)
  show ?thesis
  proof (cases "bp = []")
    case True
    with Inr estimate_no_candidate show ?thesis by simp
  next
    case False
    with Inr show ?thesis
      by (simp add: computeBorderMidpointFromPaths_def Let_def split: prod.splits)
  qed
qed

text \<open>
  Claim C8, amended: when no candidate is recorded for \<open>(A, B)\<close>, none is recorded for
  \<open>(B, A)\<close>, and both orders return the fallback built from the same two bounding boxes:
  the half-sum of \<^verbatim>\<open>bA.x + bA.width / 2 + bB.x + bB.width / 2\<close> for \<open>(A, B)\<close>, and of the same
  four terms with the boxes exchanged for \<open>(B, A)\<close>. The two sums add the same terms in a
  different order: the theorem states each as the source writes it and does not identify
  them, since floating-point addition may round the two orders differently. With candidates
  the returned point depends on the order of the arguments.
\<close>

theorem estimator_symmetric_fallback:
  "borderPointsOf segmentsA segmentsB = Inr []
   \<longrightarrow> borderPointsOf segmentsB segmentsA = Inr []
       \<and> (\<exists>bA bB. computeBBox segmentsA = Some bA \<and> computeBBox segmentsB = Some bB
            \<and> computeBorderMidpointFromPaths segmentsA segmentsB
                = Inr (Some \<lparr>px = (bbx bA + width bA / 2 + bbx bB + width bB / 2) / 2,
                             py = (bby bA + height bA / 2 + bby bB + height bB / 2) / 2\<rparr>)
            \<and> computeBorderMidpointFromPaths segmentsB segmentsA
                = Inr (Some \<lparr>px = (bbx bB + width bB / 2 + bbx bA + width bA / 2) / 2,
                             py = (bby bB + height bB / 2 + bby bA + height bA / 2) / 2\<rparr>))"
proof
  assume ab: "borderPointsOf segmentsA segmentsB = Inr []"
  then have "borderLoop segmentsA segmentsB (computeTotalLength segmentsA)
      (computeTotalLength segmentsB) 200 5 [0..<Suc 200] [] = Inr []"
    by (simp only: borderPointsOf_unfold)
  then have "borderLoop segmentsB segmentsA (computeTotalLength segmentsB)
      (computeTotalLength segmentsA) 200 5 [0..<Suc 200] [] = Inr []"
    by (rule borderLoop_swap_none)
  then have ba: "borderPointsOf segmentsB segmentsA = Inr []"
    by (simp only: borderPointsOf_unfold)
  from no_candidate_nonempty [OF ab]
  have boxA: "computeBBox segmentsA = Some (boundingBox segmentsA)"
    and boxB: "computeBBox segmentsB = Some (boundingBox segmentsB)"
    by (simp_all add: computeBBox_boundingBox)
  have "computeBorderMidpointFromPaths segmentsA segmentsB
      = Inr (Some \<lparr>px = (bbx (boundingBox segmentsA) + width (boundingBox segmentsA) / 2
                          + bbx (boundingBox segmentsB) + width (boundingBox segmentsB) / 2) / 2,
                   py = (bby (boundingBox segmentsA) + height (boundingBox segmentsA) / 2
                          + bby (boundingBox segmentsB) + height (boundingBox segmentsB) / 2) / 2\<rparr>)"
    using ab by (simp add: computeBorderMidpointFromPaths_def boxA boxB)
  moreover have "computeBorderMidpointFromPaths segmentsB segmentsA
      = Inr (Some \<lparr>px = (bbx (boundingBox segmentsB) + width (boundingBox segmentsB) / 2
                          + bbx (boundingBox segmentsA) + width (boundingBox segmentsA) / 2) / 2,
                   py = (bby (boundingBox segmentsB) + height (boundingBox segmentsB) / 2
                          + bby (boundingBox segmentsA) + height (boundingBox segmentsA) / 2) / 2\<rparr>)"
    using ba by (simp add: computeBorderMidpointFromPaths_def boxA boxB)
  ultimately show "borderPointsOf segmentsB segmentsA = Inr []
       \<and> (\<exists>bA bB. computeBBox segmentsA = Some bA \<and> computeBBox segmentsB = Some bB
            \<and> computeBorderMidpointFromPaths segmentsA segmentsB
                = Inr (Some \<lparr>px = (bbx bA + width bA / 2 + bbx bB + width bB / 2) / 2,
                             py = (bby bA + height bA / 2 + bby bB + height bB / 2) / 2\<rparr>)
            \<and> computeBorderMidpointFromPaths segmentsB segmentsA
                = Inr (Some \<lparr>px = (bbx bB + width bB / 2 + bbx bA + width bA / 2) / 2,
                             py = (bby bB + height bB / 2 + bby bA + height bA / 2) / 2\<rparr>))"
    using ba boxA boxB by simp
qed

section \<open>Shapes apart by more than the threshold\<close>

lemma convex_bounds:
  fixes a b t lo hi :: real
  assumes "lo \<le> a" "a \<le> hi" "lo \<le> b" "b \<le> hi" "0 \<le> t" "t \<le> 1"
  shows "lo \<le> a + t * (b - a) \<and> a + t * (b - a) \<le> hi"
proof -
  have eq: "a + t * (b - a) = (1 - t) * a + t * b" by (simp add: algebra_simps)
  have "(1 - t) * lo \<le> (1 - t) * a" "t * lo \<le> t * b" "(1 - t) * a \<le> (1 - t) * hi" "t * b \<le> t * hi"
    using assms by (simp_all add: mult_left_mono)
  then have "(1 - t) * lo + t * lo \<le> (1 - t) * a + t * b" "(1 - t) * a + t * b \<le> (1 - t) * hi + t * hi"
    by simp_all
  then show ?thesis unfolding eq by (simp add: algebra_simps)
qed

text \<open>
  A point returned by the walk is a convex combination of two consecutive points of a ring,
  provided the walk starts at or below the target.
\<close>

lemma walkRing_px:
  assumes "\<forall>p \<in> set seg. lo \<le> px p \<and> px p \<le> hi" and "acc \<le> targetLen"
  shows "case walkRing seg acc targetLen of
           Found p \<Rightarrow> lo \<le> px p \<and> px p \<le> hi
         | Continue acc' \<Rightarrow> acc' \<le> targetLen"
  using assms
proof (induction seg arbitrary: acc rule: induct_list012)
  case (3 p q rest)
  show ?case
  proof (cases "acc + segLength p q \<ge> targetLen")
    case True
    define t where "t = (if segLength p q > 0 then (targetLen - acc) / segLength p q else 0)"
    have "0 \<le> t" "t \<le> 1"
      using True "3.prems"(2) by (simp_all add: t_def)
    moreover have "lo \<le> px p" "px p \<le> hi" "lo \<le> px q" "px q \<le> hi"
      using "3.prems"(1) by simp_all
    ultimately have "lo \<le> px p + t * (px q - px p) \<and> px p + t * (px q - px p) \<le> hi"
      by (intro convex_bounds)
    with True show ?thesis by (simp only: walkRing_step t_def) simp
  next
    case False
    then have "acc + segLength p q \<le> targetLen" by simp
    moreover have "\<forall>p \<in> set (q # rest). lo \<le> px p \<and> px p \<le> hi" using "3.prems"(1) by simp
    ultimately have "case walkRing (q # rest) (acc + segLength p q) targetLen of
           Found p \<Rightarrow> lo \<le> px p \<and> px p \<le> hi
         | Continue acc' \<Rightarrow> acc' \<le> targetLen"
      by (intro "3.IH"(2))
    with False show ?thesis by (simp only: walkRing_step if_False)
  qed
qed simp_all

lemma walkRings_px:
  assumes "\<forall>p \<in> set (concat segments). lo \<le> px p \<and> px p \<le> hi" and "acc \<le> targetLen"
    and "walkRings segments acc targetLen = Some p"
  shows "lo \<le> px p \<and> px p \<le> hi"
  using assms
proof (induction segments arbitrary: acc)
  case (Cons seg segments)
  have seg: "\<forall>p \<in> set seg. lo \<le> px p \<and> px p \<le> hi" using Cons.prems(1) by simp
  have rest: "\<forall>p \<in> set (concat segments). lo \<le> px p \<and> px p \<le> hi" using Cons.prems(1) by simp
  note w = walkRing_px [OF seg Cons.prems(2)]
  show ?case
  proof (cases "walkRing seg acc targetLen")
    case (Found q)
    with w Cons.prems(3) show ?thesis by simp
  next
    case (Continue acc')
    with w have "acc' \<le> targetLen" by simp
    moreover from Continue Cons.prems(3) have "walkRings segments acc' targetLen = Some p" by simp
    ultimately show ?thesis using rest by (intro Cons.IH)
  qed
qed simp

lemma pointAtLength_px:
  assumes "\<forall>p \<in> set (concat segments). lo \<le> px p \<and> px p \<le> hi" and "0 \<le> targetLen"
    and "pointAtLength segments totalLen targetLen = Inr (Some p)"
  shows "lo \<le> px p \<and> px p \<le> hi"
proof (cases "walkRings segments 0 targetLen")
  case None
  with assms(3) have ne: "segments \<noteq> []" "last segments \<noteq> []" and p: "p = last (last segments)"
    by (auto simp: pointAtLength_def split: if_splits)
  then have "last segments \<in> set segments" "last (last segments) \<in> set (last segments)" by simp_all
  then have "p \<in> set (concat segments)" unfolding p by auto
  with assms(1) show ?thesis by blast
next
  case (Some q)
  with assms(3) have "walkRings segments 0 targetLen = Some p" by (simp add: pointAtLength_def)
  with assms(1,2) show ?thesis by (rule walkRings_px)
qed

lemma candidates_separated:
  assumes A: "segmentsA \<noteq> []" "last segmentsA \<noteq> []" and B: "segmentsB \<noteq> []" "last segmentsB \<noteq> []"
    and boxA: "\<forall>p \<in> set (concat segmentsA). loA \<le> px p \<and> px p \<le> hiA"
    and boxB: "\<forall>p \<in> set (concat segmentsB). loB \<le> px p \<and> px p \<le> hiB"
    and apart: "hiA + 5 \<le> loB"
  shows "borderPointsOf segmentsA segmentsB = Inr []"
proof -
  let ?lenA = "computeTotalLength segmentsA" and ?lenB = "computeTotalLength segmentsB"
  have "borderLoop segmentsA segmentsB ?lenA ?lenB 200 5 [0..<Suc 200] [] = Inr []"
  proof (rule borderLoop_none)
    fix i :: nat
    obtain a where a: "pointAtLength segmentsA ?lenA (?lenA * real i / real 200) = Inr (Some a)"
      using pointAtLength_defined [OF A] by blast
    have "0 \<le> ?lenA * real i / real 200" using computeTotalLength_nonneg [of segmentsA] by simp
    with boxA have xa: "px a \<le> hiA" using a pointAtLength_px by blast
    have "\<exists>d q. nearestLoop segmentsB ?lenB 200 (Some a) [0..<Suc 200] None = Inr (Some (d, q)) \<and> 5 * 5 \<le> d"
    proof (rule nearestLoop_upper)
      show "\<forall>j \<in> set [0..<Suc 200]. \<exists>b. pointAtLength segmentsB ?lenB (?lenB * real j / real 200) = Inr (Some b)
               \<and> 5 * 5 \<le> sqDist a b"
      proof
        fix j :: nat
        obtain b where b: "pointAtLength segmentsB ?lenB (?lenB * real j / real 200) = Inr (Some b)"
          using pointAtLength_defined [OF B] by blast
        have "0 \<le> ?lenB * real j / real 200" using computeTotalLength_nonneg [of segmentsB] by simp
        with boxB have "loB \<le> px b" using b pointAtLength_px by blast
        with xa apart have "5 \<le> px b - px a" by simp
        then have "5 * 5 \<le> (px b - px a) * (px b - px a)" by (intro mult_mono) simp_all
        also have "\<dots> = (px a - px b) * (px a - px b)" by (simp add: algebra_simps)
        also have "\<dots> \<le> sqDist a b" by (simp add: sqDist_def)
        finally show "\<exists>b. pointAtLength segmentsB ?lenB (?lenB * real j / real 200) = Inr (Some b)
               \<and> 5 * 5 \<le> sqDist a b"
          using b by blast
      qed
      show "\<forall>bd bq. None = Some (bd, bq) \<longrightarrow> 5 * 5 \<le> bd" by simp
      show "[0..<Suc 200] \<noteq> [] \<or> (None :: (real \<times> point) option) \<noteq> None" by auto
    qed
    with a show "\<exists>ptA d q. pointAtLength segmentsA ?lenA (?lenA * real i / real 200) = Inr ptA
        \<and> nearestLoop segmentsB ?lenB 200 ptA [0..<Suc 200] None = Inr (Some (d, q))
        \<and> \<not> d < 5 * 5"
      by (auto simp: not_less)
  qed
  then show ?thesis by (simp only: borderPointsOf_unfold)
qed

subsection \<open>Two unit squares with a gap\<close>

text \<open>The two squares as the parser reads them from their path descriptions.\<close>

lemma parsed_squares:
  "parsePath ''M0,0 L1,0 L1,1 L0,1 Z''
     = Inr [[\<lparr>jx = Num 0, jy = Num 0\<rparr>, \<lparr>jx = Num 1, jy = Num 0\<rparr>, \<lparr>jx = Num 1, jy = Num 1\<rparr>,
             \<lparr>jx = Num 0, jy = Num 1\<rparr>, \<lparr>jx = Num 0, jy = Num 0\<rparr>]]"
  "numberShape [[\<lparr>jx = Num 0, jy = Num 0\<rparr>, \<lparr>jx = Num 1, jy = Num 0\<rparr>, \<lparr>jx = Num 1, jy = Num 1\<rparr>,
                 \<lparr>jx = Num 0, jy = Num 1\<rparr>, \<lparr>jx = Num 0, jy = Num 0\<rparr>]]
     = Some [[\<lparr>px = 0, py = 0\<rparr>, \<lparr>px = 1, py = 0\<rparr>, \<lparr>px = 1, py = 1\<rparr>, \<lparr>px = 0, py = 1\<rparr>, \<lparr>px = 0, py = 0\<rparr>]]"
  "parsePath ''M10,0 L11,0 L11,1 L10,1 Z''
     = Inr [[\<lparr>jx = Num 10, jy = Num 0\<rparr>, \<lparr>jx = Num 11, jy = Num 0\<rparr>, \<lparr>jx = Num 11, jy = Num 1\<rparr>,
             \<lparr>jx = Num 10, jy = Num 1\<rparr>, \<lparr>jx = Num 10, jy = Num 0\<rparr>]]"
  "numberShape [[\<lparr>jx = Num 10, jy = Num 0\<rparr>, \<lparr>jx = Num 11, jy = Num 0\<rparr>, \<lparr>jx = Num 11, jy = Num 1\<rparr>,
                 \<lparr>jx = Num 10, jy = Num 1\<rparr>, \<lparr>jx = Num 10, jy = Num 0\<rparr>]]
     = Some [[\<lparr>px = 10, py = 0\<rparr>, \<lparr>px = 11, py = 0\<rparr>, \<lparr>px = 11, py = 1\<rparr>, \<lparr>px = 10, py = 1\<rparr>, \<lparr>px = 10, py = 0\<rparr>]]"
  by (simp_all add: parsePath_def parseStep_def Let_def numberShape_def numberPoint_def
      isCommand_def isSpace_def isDigit_def isOperandChar_def isSeparator_def
      toUpperCase_def trim_def numsOf_def Number_def exponentOf_def digitsValue_def numAt_def
      split.simps)

lemma candidates_squares:
  "borderPointsOf
     [[\<lparr>px = 0, py = 0\<rparr>, \<lparr>px = 1, py = 0\<rparr>, \<lparr>px = 1, py = 1\<rparr>, \<lparr>px = 0, py = 1\<rparr>, \<lparr>px = 0, py = 0\<rparr>]]
     [[\<lparr>px = 10, py = 0\<rparr>, \<lparr>px = 11, py = 0\<rparr>, \<lparr>px = 11, py = 1\<rparr>, \<lparr>px = 10, py = 1\<rparr>, \<lparr>px = 10, py = 0\<rparr>]]
   = Inr []"
  by (rule candidates_separated [where loA = 0 and hiA = 1 and loB = 10 and hiB = 11]) simp_all

lemma boxes_squares:
  "computeBBox [[\<lparr>px = 0, py = 0\<rparr>, \<lparr>px = 1, py = 0\<rparr>, \<lparr>px = 1, py = 1\<rparr>, \<lparr>px = 0, py = 1\<rparr>, \<lparr>px = 0, py = 0\<rparr>]]
     = Some \<lparr>bbx = 0, bby = 0, width = 1, height = 1\<rparr>"
  "computeBBox [[\<lparr>px = 10, py = 0\<rparr>, \<lparr>px = 11, py = 0\<rparr>, \<lparr>px = 11, py = 1\<rparr>, \<lparr>px = 10, py = 1\<rparr>, \<lparr>px = 10, py = 0\<rparr>]]
     = Some \<lparr>bbx = 10, bby = 0, width = 1, height = 1\<rparr>"
  by (simp_all add: computeBBox_def boundsOf_def boundsPoint_def lowerTo_def raiseTo_def)

lemma estimate_squares:
  "computeBorderMidpointFromPaths
     [[\<lparr>px = 0, py = 0\<rparr>, \<lparr>px = 1, py = 0\<rparr>, \<lparr>px = 1, py = 1\<rparr>, \<lparr>px = 0, py = 1\<rparr>, \<lparr>px = 0, py = 0\<rparr>]]
     [[\<lparr>px = 10, py = 0\<rparr>, \<lparr>px = 11, py = 0\<rparr>, \<lparr>px = 11, py = 1\<rparr>, \<lparr>px = 10, py = 1\<rparr>, \<lparr>px = 10, py = 0\<rparr>]]
   = Inr (Some \<lparr>px = 11 / 2, py = 1 / 2\<rparr>)"
  by (simp add: computeBorderMidpointFromPaths_def candidates_squares boxes_squares)

text \<open>
  Claim C2: when the first loop records no candidate, the estimator returns the midpoint of
  the centres of the two bounding boxes, which are the boxes of least and greatest coordinates;
  for the unit squares \<open>(0,0)-(1,1)\<close> and \<open>(10,0)-(11,1)\<close>, each a closed ring of its four
  corners, it returns \<open>(5.5, 0.5)\<close>.
\<close>

theorem estimator_fallback:
  "(borderPointsOf segmentsA segmentsB = Inr []
     \<longrightarrow> computeBBox segmentsA = Some (boundingBox segmentsA)
         \<and> computeBBox segmentsB = Some (boundingBox segmentsB)
         \<and> computeBorderMidpointFromPaths segmentsA segmentsB
             = Inr (Some (midpoint (bboxCenter (boundingBox segmentsA)) (bboxCenter (boundingBox segmentsB)))))
   \<and> computeBorderMidpointFromPaths
       [[\<lparr>px = 0, py = 0\<rparr>, \<lparr>px = 1, py = 0\<rparr>, \<lparr>px = 1, py = 1\<rparr>, \<lparr>px = 0, py = 1\<rparr>, \<lparr>px = 0, py = 0\<rparr>]]
       [[\<lparr>px = 10, py = 0\<rparr>, \<lparr>px = 11, py = 0\<rparr>, \<lparr>px = 11, py = 1\<rparr>, \<lparr>px = 10, py = 1\<rparr>, \<lparr>px = 10, py = 0\<rparr>]]
     = Inr (Some \<lparr>px = 11 / 2, py = 1 / 2\<rparr>)"
  using no_candidate_nonempty [of segmentsA segmentsB] estimate_no_candidate [of segmentsA segmentsB]
  by (simp add: computeBBox_boundingBox estimate_squares)

theorem estimator_fallback_witness:
  "borderPointsOf
     [[\<lparr>px = 0, py = 0\<rparr>, \<lparr>px = 1, py = 0\<rparr>, \<lparr>px = 1, py = 1\<rparr>, \<lparr>px = 0, py = 1\<rparr>, \<lparr>px = 0, py = 0\<rparr>]]
     [[\<lparr>px = 10, py = 0\<rparr>, \<lparr>px = 11, py = 0\<rparr>, \<lparr>px = 11, py = 1\<rparr>, \<lparr>px = 10, py = 1\<rparr>, \<lparr>px = 10, py = 0\<rparr>]]
     = Inr []
   \<and> boundingBox [[\<lparr>px = 0, py = 0\<rparr>, \<lparr>px = 1, py = 0\<rparr>, \<lparr>px = 1, py = 1\<rparr>, \<lparr>px = 0, py = 1\<rparr>, \<lparr>px = 0, py = 0\<rparr>]]
     = \<lparr>bbx = 0, bby = 0, width = 1, height = 1\<rparr>
   \<and> boundingBox [[\<lparr>px = 10, py = 0\<rparr>, \<lparr>px = 11, py = 0\<rparr>, \<lparr>px = 11, py = 1\<rparr>, \<lparr>px = 10, py = 1\<rparr>, \<lparr>px = 10, py = 0\<rparr>]]
     = \<lparr>bbx = 10, bby = 0, width = 1, height = 1\<rparr>
   \<and> computeBorderMidpointFromPaths
       [[\<lparr>px = 0, py = 0\<rparr>, \<lparr>px = 1, py = 0\<rparr>, \<lparr>px = 1, py = 1\<rparr>, \<lparr>px = 0, py = 1\<rparr>, \<lparr>px = 0, py = 0\<rparr>]]
       [[\<lparr>px = 10, py = 0\<rparr>, \<lparr>px = 11, py = 0\<rparr>, \<lparr>px = 11, py = 1\<rparr>, \<lparr>px = 10, py = 1\<rparr>, \<lparr>px = 10, py = 0\<rparr>]]
     = Inr (Some (midpoint \<lparr>px = 1 / 2, py = 1 / 2\<rparr> \<lparr>px = 21 / 2, py = 1 / 2\<rparr>))"
proof -
  let ?A = "[[\<lparr>px = 0, py = 0\<rparr>, \<lparr>px = 1, py = 0\<rparr>, \<lparr>px = 1, py = 1\<rparr>, \<lparr>px = 0, py = 1\<rparr>, \<lparr>px = 0, py = 0\<rparr>]]"
  let ?B = "[[\<lparr>px = 10, py = 0\<rparr>, \<lparr>px = 11, py = 0\<rparr>, \<lparr>px = 11, py = 1\<rparr>, \<lparr>px = 10, py = 1\<rparr>, \<lparr>px = 10, py = 0\<rparr>]]"
  from estimator_fallback [of ?A ?B] candidates_squares
  have boxes: "computeBBox ?A = Some (boundingBox ?A)" "computeBBox ?B = Some (boundingBox ?B)"
    and est: "computeBorderMidpointFromPaths ?A ?B
             = Inr (Some (midpoint (bboxCenter (boundingBox ?A)) (bboxCenter (boundingBox ?B))))"
    by blast+
  from boxes boxes_squares have bb: "boundingBox ?A = \<lparr>bbx = 0, bby = 0, width = 1, height = 1\<rparr>"
    "boundingBox ?B = \<lparr>bbx = 10, bby = 0, width = 1, height = 1\<rparr>"
    by simp_all
  from est have "computeBorderMidpointFromPaths ?A ?B
      = Inr (Some (midpoint \<lparr>px = 1 / 2, py = 1 / 2\<rparr> \<lparr>px = 21 / 2, py = 1 / 2\<rparr>))"
    unfolding bb by (simp add: bboxCenter_def)
  with candidates_squares bb show ?thesis by blast
qed

theorem estimator_symmetric_fallback_witness:
  "borderPointsOf [[\<lparr>px = 0, py = 0\<rparr>]] [[\<lparr>px = 10, py = 0\<rparr>]] = Inr []
   \<and> borderPointsOf [[\<lparr>px = 10, py = 0\<rparr>]] [[\<lparr>px = 0, py = 0\<rparr>]] = Inr []
   \<and> computeBBox [[\<lparr>px = 0, py = 0\<rparr>]] = Some \<lparr>bbx = 0, bby = 0, width = 0, height = 0\<rparr>
   \<and> computeBBox [[\<lparr>px = 10, py = 0\<rparr>]] = Some \<lparr>bbx = 10, bby = 0, width = 0, height = 0\<rparr>
   \<and> computeBorderMidpointFromPaths [[\<lparr>px = 0, py = 0\<rparr>]] [[\<lparr>px = 10, py = 0\<rparr>]]
       = Inr (Some \<lparr>px = (0 + 0 / 2 + 10 + 0 / 2) / 2, py = 0\<rparr>)
   \<and> computeBorderMidpointFromPaths [[\<lparr>px = 10, py = 0\<rparr>]] [[\<lparr>px = 0, py = 0\<rparr>]]
       = Inr (Some \<lparr>px = (10 + 0 / 2 + 0 + 0 / 2) / 2, py = 0\<rparr>)"
proof -
  have none: "borderPointsOf [[\<lparr>px = 0, py = 0\<rparr>]] [[\<lparr>px = 10, py = 0\<rparr>]] = Inr []"
    by (rule candidates_separated [where loA = 0 and hiA = 0 and loB = 10 and hiB = 10]) simp_all
  have boxes: "computeBBox [[\<lparr>px = 0, py = 0\<rparr>]] = Some \<lparr>bbx = 0, bby = 0, width = 0, height = 0\<rparr>"
      "computeBBox [[\<lparr>px = 10, py = 0\<rparr>]] = Some \<lparr>bbx = 10, bby = 0, width = 0, height = 0\<rparr>"
    by (simp_all add: computeBBox_def boundsOf_def boundsPoint_def lowerTo_def raiseTo_def)
  with none estimator_symmetric_fallback [of "[[\<lparr>px = 0, py = 0\<rparr>]]" "[[\<lparr>px = 10, py = 0\<rparr>]]"]
  show ?thesis by simp
qed

section \<open>The runtime estimator: centroid and closest shared point\<close>

lemma fold_sum: "fold (\<lambda>p s. s + f p) ps (s0 :: real) = s0 + sum_list (map f ps)"
  by (induction ps arbitrary: s0) simp_all

lemma closestStep_sqDist:
  "closestStep (px c) (py c) p (minDist, closest) =
     (if (case minDist of None \<Rightarrow> True | Some m \<Rightarrow> sqDist p c < m) then (Some (sqDist p c), p)
      else (minDist, closest))"
  unfolding sqDist_def by (simp add: closestStep_def Let_def)

lemma closest_fold:
  "\<exists>z. fold (closestStep (px c) (py c)) ps (Some (sqDist q c), q) = (Some (sqDist z c), z)
     \<and> ((z = q \<and> (\<forall>p \<in> set ps. sqDist q c \<le> sqDist p c))
        \<or> (\<exists>pre post. ps = pre @ z # post \<and> sqDist z c < sqDist q c
             \<and> (\<forall>p \<in> set pre. sqDist z c < sqDist p c) \<and> (\<forall>p \<in> set post. sqDist z c \<le> sqDist p c)))"
proof (induction ps arbitrary: q)
  case (Cons p ps)
  show ?case
  proof (cases "sqDist p c < sqDist q c")
    case True
    from Cons.IH [of p] obtain z where z: "fold (closestStep (px c) (py c)) ps (Some (sqDist p c), p) = (Some (sqDist z c), z)"
      and alt: "(z = p \<and> (\<forall>r \<in> set ps. sqDist p c \<le> sqDist r c))
        \<or> (\<exists>pre post. ps = pre @ z # post \<and> sqDist z c < sqDist p c
             \<and> (\<forall>r \<in> set pre. sqDist z c < sqDist r c) \<and> (\<forall>r \<in> set post. sqDist z c \<le> sqDist r c))"
      by blast
    have run: "fold (closestStep (px c) (py c)) (p # ps) (Some (sqDist q c), q) = (Some (sqDist z c), z)"
      using True z by (simp add: closestStep_sqDist)
    from alt have "\<exists>pre post. p # ps = pre @ z # post \<and> sqDist z c < sqDist q c
             \<and> (\<forall>r \<in> set pre. sqDist z c < sqDist r c) \<and> (\<forall>r \<in> set post. sqDist z c \<le> sqDist r c)"
    proof
      assume "z = p \<and> (\<forall>r \<in> set ps. sqDist p c \<le> sqDist r c)"
      with True have "p # ps = [] @ z # ps \<and> sqDist z c < sqDist q c
             \<and> (\<forall>r \<in> set []. sqDist z c < sqDist r c) \<and> (\<forall>r \<in> set ps. sqDist z c \<le> sqDist r c)"
        by simp
      then show ?thesis by blast
    next
      assume "\<exists>pre post. ps = pre @ z # post \<and> sqDist z c < sqDist p c
             \<and> (\<forall>r \<in> set pre. sqDist z c < sqDist r c) \<and> (\<forall>r \<in> set post. sqDist z c \<le> sqDist r c)"
      then obtain pre post where "ps = pre @ z # post" "sqDist z c < sqDist p c"
        "\<forall>r \<in> set pre. sqDist z c < sqDist r c" "\<forall>r \<in> set post. sqDist z c \<le> sqDist r c"
        by blast
      with True have "p # ps = (p # pre) @ z # post \<and> sqDist z c < sqDist q c
             \<and> (\<forall>r \<in> set (p # pre). sqDist z c < sqDist r c) \<and> (\<forall>r \<in> set post. sqDist z c \<le> sqDist r c)"
        by simp
      then show ?thesis by blast
    qed
    with run show ?thesis by blast
  next
    case False
    from Cons.IH [of q] obtain z where z: "fold (closestStep (px c) (py c)) ps (Some (sqDist q c), q) = (Some (sqDist z c), z)"
      and alt: "(z = q \<and> (\<forall>r \<in> set ps. sqDist q c \<le> sqDist r c))
        \<or> (\<exists>pre post. ps = pre @ z # post \<and> sqDist z c < sqDist q c
             \<and> (\<forall>r \<in> set pre. sqDist z c < sqDist r c) \<and> (\<forall>r \<in> set post. sqDist z c \<le> sqDist r c))"
      by blast
    have run: "fold (closestStep (px c) (py c)) (p # ps) (Some (sqDist q c), q) = (Some (sqDist z c), z)"
      using False z by (simp add: closestStep_sqDist)
    from alt have "(z = q \<and> (\<forall>r \<in> set (p # ps). sqDist q c \<le> sqDist r c))
        \<or> (\<exists>pre post. p # ps = pre @ z # post \<and> sqDist z c < sqDist q c
             \<and> (\<forall>r \<in> set pre. sqDist z c < sqDist r c) \<and> (\<forall>r \<in> set post. sqDist z c \<le> sqDist r c))"
    proof
      assume "z = q \<and> (\<forall>r \<in> set ps. sqDist q c \<le> sqDist r c)"
      with False show ?thesis by simp
    next
      assume "\<exists>pre post. ps = pre @ z # post \<and> sqDist z c < sqDist q c
             \<and> (\<forall>r \<in> set pre. sqDist z c < sqDist r c) \<and> (\<forall>r \<in> set post. sqDist z c \<le> sqDist r c)"
      then obtain pre post where "ps = pre @ z # post" "sqDist z c < sqDist q c"
        "\<forall>r \<in> set pre. sqDist z c < sqDist r c" "\<forall>r \<in> set post. sqDist z c \<le> sqDist r c"
        by blast
      with False have "p # ps = (p # pre) @ z # post \<and> sqDist z c < sqDist q c
             \<and> (\<forall>r \<in> set (p # pre). sqDist z c < sqDist r c) \<and> (\<forall>r \<in> set post. sqDist z c \<le> sqDist r c)"
        by simp
      then show ?thesis by blast
    qed
    with run show ?thesis by blast
  qed
qed simp

text \<open>
  The closest loop on a non-empty list returns the first point at least squared distance
  from the centre \<open>c\<close>, together with that squared distance.
\<close>

lemma closest_loop:
  assumes "shared \<noteq> []"
  shows "\<exists>z pre post. fold (closestStep (px c) (py c)) shared (None, shared ! 0) = (Some (sqDist z c), z)
     \<and> shared = pre @ z # post
     \<and> (\<forall>p \<in> set pre. sqDist z c < sqDist p c) \<and> (\<forall>p \<in> set post. sqDist z c \<le> sqDist p c)"
proof -
  from assms obtain q ps where shared: "shared = q # ps" by (cases shared) auto
  have first: "fold (closestStep (px c) (py c)) shared (None, shared ! 0)
                 = fold (closestStep (px c) (py c)) ps (Some (sqDist q c), q)"
    by (simp add: shared closestStep_sqDist)
  from closest_fold [of c ps q] obtain z
    where z: "fold (closestStep (px c) (py c)) ps (Some (sqDist q c), q) = (Some (sqDist z c), z)"
      and alt: "(z = q \<and> (\<forall>p \<in> set ps. sqDist q c \<le> sqDist p c))
        \<or> (\<exists>pre post. ps = pre @ z # post \<and> sqDist z c < sqDist q c
             \<and> (\<forall>p \<in> set pre. sqDist z c < sqDist p c) \<and> (\<forall>p \<in> set post. sqDist z c \<le> sqDist p c))"
    by blast
  from alt have "\<exists>pre post. shared = pre @ z # post
     \<and> (\<forall>p \<in> set pre. sqDist z c < sqDist p c) \<and> (\<forall>p \<in> set post. sqDist z c \<le> sqDist p c)"
  proof
    assume "z = q \<and> (\<forall>p \<in> set ps. sqDist q c \<le> sqDist p c)"
    then have "shared = [] @ z # ps \<and> (\<forall>p \<in> set []. sqDist z c < sqDist p c)
        \<and> (\<forall>p \<in> set ps. sqDist z c \<le> sqDist p c)"
      by (simp add: shared)
    then show ?thesis by blast
  next
    assume "\<exists>pre post. ps = pre @ z # post \<and> sqDist z c < sqDist q c
             \<and> (\<forall>p \<in> set pre. sqDist z c < sqDist p c) \<and> (\<forall>p \<in> set post. sqDist z c \<le> sqDist p c)"
    then obtain pre post where "ps = pre @ z # post" "sqDist z c < sqDist q c"
        "\<forall>p \<in> set pre. sqDist z c < sqDist p c" "\<forall>p \<in> set post. sqDist z c \<le> sqDist p c"
      by blast
    then have "shared = (q # pre) @ z # post \<and> (\<forall>p \<in> set (q # pre). sqDist z c < sqDist p c)
        \<and> (\<forall>p \<in> set post. sqDist z c \<le> sqDist p c)"
      by (simp add: shared)
    then show ?thesis by blast
  qed
  with first z show ?thesis by auto
qed

lemma centroid_coords:
  "shared \<noteq> [] \<Longrightarrow>
     fold (\<lambda>p s. s + px p) shared 0 / real (length shared) = px (centroid shared)
     \<and> fold (\<lambda>p s. s + py p) shared 0 / real (length shared) = py (centroid shared)"
  by (simp add: fold_sum centroid_def)

lemma distance_sqDist: "distance p q = sqrt (sqDist p q)"
  by (simp add: distance_def sqDist_def power2_eq_square)

lemma sqDist_nonneg: "0 \<le> sqDist p q"
  by (simp add: sqDist_def)

lemma distance_less_iff: "distance p q < distance r s \<longleftrightarrow> sqDist p q < sqDist r s"
  by (simp add: distance_sqDist)

lemma distance_le_iff: "distance p q \<le> distance r s \<longleftrightarrow> sqDist p q \<le> sqDist r s"
  by (simp add: distance_sqDist)

lemma distance_under_threshold: "distance p q < 4 \<longleftrightarrow> sqDist p q < 4 * 4"
proof -
  have "sqrt (sqDist p q) < sqrt (4 * 4) \<longleftrightarrow> sqDist p q < 4 * 4"
    by (rule real_sqrt_less_iff)
  moreover have "sqrt (4 * 4) = (4 :: real)" by simp
  ultimately show ?thesis by (simp only: distance_sqDist)
qed

lemma fold_append_each: "fold (\<lambda>x s. s @ g x) xs = (\<lambda>s. s @ concat (map g xs))"
proof
  show "fold (\<lambda>x s. s @ g x) xs s = s @ concat (map g xs)" for s
    by (induction xs arbitrary: s) simp_all
qed

lemma map_filter_Pair:
  "map f (filter P (map (Pair x) ys)) = concat (map (\<lambda>y. if P (x, y) then [f (x, y)] else []) ys)"
  by (induction ys) simp_all

lemma map_filter_product:
  "map f (filter P (List.product xs ys))
     = concat (map (\<lambda>x. concat (map (\<lambda>y. if P (x, y) then [f (x, y)] else []) ys)) xs)"
  by (induction xs) (simp_all add: map_filter_Pair)

lemma sharedStep_append:
  "sharedStep pathA pathB (getTotalLength pathA) (getTotalLength pathB) 60 4 i
     = (\<lambda>j shared. shared @ (if distance (samplePoint pathA i) (samplePoint pathB j) < 4
                 then [midpoint (samplePoint pathA i) (samplePoint pathB j)] else []))"
  by (intro ext)
     (simp add: sharedStep_def Let_def distance_under_threshold sqDist_def samplePoint_def midpoint_def)

text \<open>The double loop collects the midpoints of the under-threshold pairs, in the order of the pairs.\<close>

lemma sharedPoints_sharedMidpoints: "sharedPoints pathA pathB = sharedMidpoints pathA pathB"
proof -
  have n: "Suc 60 = 61" by simp
  have "sharedPoints pathA pathB
      = fold (\<lambda>i shared. shared @ concat (map (\<lambda>j.
            if distance (samplePoint pathA i) (samplePoint pathB j) < 4
            then [midpoint (samplePoint pathA i) (samplePoint pathB j)] else []) [0..<61])) [0..<61] []"
    unfolding sharedPoints_def Let_def n
    by (simp only: sharedStep_append fold_append_each)
  also have "\<dots> = concat (map (\<lambda>i. concat (map (\<lambda>j.
            if distance (samplePoint pathA i) (samplePoint pathB j) < 4
            then [midpoint (samplePoint pathA i) (samplePoint pathB j)] else []) [0..<61])) [0..<61])"
    by (simp only: fold_append_each append_Nil)
  also have "\<dots> = sharedMidpoints pathA pathB"
    unfolding sharedMidpoints_def sharedPairs_def
    by (simp only: map_filter_product prod.case)
  finally show ?thesis .
qed

text \<open>
  Claim C3: the shared points are the midpoints of the under-threshold pairs of the
  \<open>61 \<times> 61\<close> samples of the two paths. When there is at least one, the runtime estimator
  takes the centroid of all shared points and the first shared point at least distance from
  it; it returns that point when it lies farther than \<open>15\<close> from the centroid, and the
  centroid otherwise.
\<close>

theorem runtime_estimator_centroid:
  "a < length paths \<and> b < length paths \<and> shared = sharedMidpoints (paths ! a) (paths ! b) \<and> shared \<noteq> []
   \<longrightarrow> (\<exists>z pre post. shared = pre @ z # post
          \<and> (\<forall>p \<in> set pre. distance z (centroid shared) < distance p (centroid shared))
          \<and> (\<forall>p \<in> set post. distance z (centroid shared) \<le> distance p (centroid shared))
          \<and> computeBorderMidpoint paths a b
              = Inr (if distance z (centroid shared) > 15 then z else centroid shared))"
proof
  assume h: "a < length paths \<and> b < length paths \<and> shared = sharedMidpoints (paths ! a) (paths ! b) \<and> shared \<noteq> []"
  then have ne: "shared \<noteq> []" by blast
  from h have sh: "sharedPoints (paths ! a) (paths ! b) = shared"
    by (simp add: sharedPoints_sharedMidpoints)
  from h have ab: "a < length paths" "b < length paths" by simp_all
  let ?c = "centroid shared"
  from closest_loop [OF ne, of ?c] obtain z pre post
    where loop: "fold (closestStep (px ?c) (py ?c)) shared (None, shared ! 0) = (Some (sqDist z ?c), z)"
      and split: "shared = pre @ z # post"
      and first: "\<forall>p \<in> set pre. sqDist z ?c < sqDist p ?c" "\<forall>p \<in> set post. sqDist z ?c \<le> sqDist p ?c"
    by blast
  have c: "\<lparr>px = px ?c, py = py ?c\<rparr> = ?c" by simp
  have "computeBorderMidpoint paths a b = Inr (if distance z ?c > 15 then z else ?c)"
    using ab ne loop unfolding distance_sqDist
    by (simp add: computeBorderMidpoint_def sh Let_def centroid_coords c del: upt_Suc)
  with split first show "\<exists>z pre post. shared = pre @ z # post
          \<and> (\<forall>p \<in> set pre. distance z (centroid shared) < distance p (centroid shared))
          \<and> (\<forall>p \<in> set post. distance z (centroid shared) \<le> distance p (centroid shared))
          \<and> computeBorderMidpoint paths a b
              = Inr (if distance z (centroid shared) > 15 then z else centroid shared)"
    unfolding distance_less_iff distance_le_iff by blast
qed

subsection \<open>Two paths that stay at one point each\<close>

lemma fold_append_same:
  "(\<And>x s. x \<in> set xs \<Longrightarrow> f x s = s @ ys) \<Longrightarrow> fold f xs s = s @ concat (replicate (length xs) ys)"
  by (induction xs arbitrary: s) simp_all

lemma shared_constant_paths:
  assumes "\<And>l. getPointAtLength pathA l = u" and "\<And>l. getPointAtLength pathB l = v"
    and "(px u - px v) * (px u - px v) + (py u - py v) * (py u - py v) < 4 * 4"
  shows "sharedPoints pathA pathB \<noteq> []
     \<and> (\<forall>p \<in> set (sharedPoints pathA pathB). p = \<lparr>px = (px u + px v) / 2, py = (py u + py v) / 2\<rparr>)"
proof -
  let ?m = "\<lparr>px = (px u + px v) / 2, py = (py u + py v) / 2\<rparr>"
  have step: "sharedStep pathA pathB lenA lenB N 4 i j s = s @ [?m]" for lenA lenB N i j s
    using assms by (simp add: sharedStep_def Let_def)
  have inner: "fold (sharedStep pathA pathB lenA lenB N 4 i) [0..<Suc 60] s
                 = s @ concat (replicate (length [0..<Suc 60]) [?m])" for lenA lenB N i s
    by (rule fold_append_same) (rule step)
  have "sharedPoints pathA pathB
          = [] @ concat (replicate (length [0..<Suc 60]) (concat (replicate (length [0..<Suc 60]) [?m])))"
    unfolding sharedPoints_def Let_def
    by (rule fold_append_same) (simp only: inner)
  then show ?thesis by (auto simp del: upt_Suc)
qed

lemma centroid_constant:
  assumes "ps \<noteq> []" and "\<forall>p \<in> set ps. p = m"
  shows "centroid ps = m"
proof -
  from assms(2) have "map px ps = replicate (length ps) (px m)" "map py ps = replicate (length ps) (py m)"
    by (simp_all add: map_replicate_const [symmetric] cong: map_cong)
  then have "sum_list (map px ps) = real (length ps) * px m" "sum_list (map py ps) = real (length ps) * py m"
    by (simp_all add: sum_list_replicate)
  with assms(1) show ?thesis by (simp add: centroid_def)
qed

subsection \<open>A straight path and a path that meets it at both ends only\<close>

lemma filter_only:
  "distinct ys \<Longrightarrow> filter (\<lambda>j. x = j \<and> R j) ys = (if x \<in> set ys \<and> R x then [x] else [])"
  by (induction ys) auto

lemma filter_diag_product:
  "distinct ys \<Longrightarrow>
     filter (\<lambda>(i, j). i = j \<and> R j) (List.product xs ys)
       = map (\<lambda>j. (j, j)) (filter (\<lambda>i. i \<in> set ys \<and> R i) xs)"
  by (induction xs) (simp_all add: filter_map comp_def filter_only)

lemma upt_61_ends: "filter (\<lambda>i. i \<in> set [0..<61] \<and> (i = 0 \<or> i = 60)) [0..<61] = [0, 60 :: nat]"
proof -
  have "[0..<Suc 60] = 0 # [1..<60] @ [60 :: nat]"
    by (simp only: upt_Suc_append [of 0 60] upt_conv_Cons [of 0 60]) simp
  then have "[0..<61] = 0 # [1..<60] @ [60 :: nat]"
    by simp
  moreover have "filter (\<lambda>i. i \<in> set [0..<61] \<and> (i = 0 \<or> i = 60)) [1..<60] = []"
    by (auto simp: filter_empty_conv)
  ultimately show ?thesis by simp
qed

lemma square_small:
  fixes x y :: real
  assumes "x * x + y * y < 4 * 4"
  shows "\<bar>x\<bar> < 4" and "\<bar>y\<bar> < 4"
proof -
  have big: "4 * 4 \<le> v * v" if "4 \<le> \<bar>v\<bar>" for v :: real
  proof -
    have "4 * 4 \<le> \<bar>v\<bar> * \<bar>v\<bar>" using that by (intro mult_mono) simp_all
    then show ?thesis by (simp add: abs_mult_self_eq)
  qed
  have "0 \<le> x * x" "0 \<le> y * y" by simp_all
  with assms have "x * x < 4 * 4" "y * y < 4 * 4" by linarith+
  with big [of x] big [of y] show "\<bar>x\<bar> < 4" and "\<bar>y\<bar> < 4" by linarith+
qed


lemma distance_level: "distance \<lparr>px = u, py = h\<rparr> \<lparr>px = v, py = h\<rparr> = \<bar>u - v\<bar>"
  by (simp add: distance_def)

text \<open>
  A straight path of length \<open>600\<close> along the axis, and a path of length \<open>1000\<close> that leaves
  the axis at the origin, climbs to \<open>(300, 400)\<close> and comes back to the axis at
  \<open>(600, 0)\<close>. Sample \<open>i\<close> of the first is \<open>(10 i, 0)\<close>; sample \<open>j\<close> of the second is above
  \<open>10 j\<close>, at the height \<open>40 j / 3\<close> or \<open>800 - 40 j / 3\<close>. The under-threshold pairs are the
  two ends.
\<close>

lemma ends_pairs:
  fixes A B :: svgPath
  assumes A: "getTotalLength A = 600" "getPointAtLength A = (\<lambda>l. \<lparr>px = l, py = 0\<rparr>)"
    and B: "getTotalLength B = 1000"
      "getPointAtLength B = (\<lambda>l. if l \<le> 500 then \<lparr>px = 3 * l / 5, py = 4 * l / 5\<rparr>
                                else \<lparr>px = 300 + 3 * (l - 500) / 5, py = 400 - 4 * (l - 500) / 5\<rparr>)"
  shows "sharedPairs A B = [(0, 0), (60, 60)]"
    and "sharedMidpoints A B = [\<lparr>px = 0, py = 0\<rparr>, \<lparr>px = 600, py = 0\<rparr>]"
proof -
  have sA: "samplePoint A i = \<lparr>px = 10 * real i, py = 0\<rparr>" for i
    by (simp add: samplePoint_def A)
  have sB: "samplePoint B j
      = \<lparr>px = 10 * real j, py = (if j \<le> 30 then 40 * real j / 3 else 800 - 40 * real j / 3)\<rparr>" for j
  proof -
    have "1000 * real j / 60 \<le> 500 \<longleftrightarrow> j \<le> 30" by auto
    then show ?thesis by (simp add: samplePoint_def B field_simps)
  qed
  have under: "distance (samplePoint A i) (samplePoint B j) < 4 \<longleftrightarrow> i = j \<and> (j = 0 \<or> j = 60)"
    if "i < 61" "j < 61" for i j
  proof
    assume "distance (samplePoint A i) (samplePoint B j) < 4"
    then have "sqDist (samplePoint A i) (samplePoint B j) < 4 * 4"
      by (simp only: distance_under_threshold)
    then have "\<bar>px (samplePoint A i) - px (samplePoint B j)\<bar> < 4"
        "\<bar>py (samplePoint A i) - py (samplePoint B j)\<bar> < 4"
      unfolding sqDist_def by (rule square_small)+
    then have x: "\<bar>10 * real i - 10 * real j\<bar> < 4"
      and y: "\<bar>0 - (if j \<le> 30 then 40 * real j / 3 else 800 - 40 * real j / 3)\<bar> < 4"
      by (simp_all only: sA sB point.simps)
    from x have "i = j" by linarith
    moreover have "j = 0 \<or> j = 60"
    proof (cases "j \<le> 30")
      case True
      with y have "\<bar>0 - 40 * real j / 3\<bar> < 4" by simp
      then have "j = 0" by linarith
      then show ?thesis by simp
    next
      case False
      with y have "\<bar>0 - (800 - 40 * real j / 3)\<bar> < 4" by simp
      with that(2) have "j = 60" by linarith
      then show ?thesis by simp
    qed
    ultimately show "i = j \<and> (j = 0 \<or> j = 60)" by simp
  next
    assume "i = j \<and> (j = 0 \<or> j = 60)"
    then have "sqDist (samplePoint A i) (samplePoint B j) = 0"
      by (auto simp: sA sB sqDist_def)
    then show "distance (samplePoint A i) (samplePoint B j) < 4"
      by (simp add: distance_under_threshold)
  qed
  have "sharedPairs A B
      = filter (\<lambda>(i, j). i = j \<and> (j = 0 \<or> j = 60)) (List.product [0..<61] [0..<61])"
    unfolding sharedPairs_def by (rule filter_cong) (auto simp: under)
  also have "\<dots> = map (\<lambda>j. (j, j)) (filter (\<lambda>i. i \<in> set [0..<61] \<and> (i = 0 \<or> i = 60)) [0..<61])"
    by (rule filter_diag_product) simp
  also have "\<dots> = [(0, 0), (60, 60)]"
    by (simp only: upt_61_ends) simp
  finally show pairs: "sharedPairs A B = [(0, 0), (60, 60)]" .
  show "sharedMidpoints A B = [\<lparr>px = 0, py = 0\<rparr>, \<lparr>px = 600, py = 0\<rparr>]"
    by (simp add: sharedMidpoints_def pairs sA sB midpoint_def)
qed

theorem runtime_estimator_centroid_witness:
  "sharedPairs
      \<lparr>getTotalLength = 600, getPointAtLength = (\<lambda>l. \<lparr>px = l, py = 0\<rparr>),
       getBBox = \<lparr>bbx = 0, bby = 0, width = 600, height = 0\<rparr>\<rparr>
      \<lparr>getTotalLength = 1000,
       getPointAtLength = (\<lambda>l. if l \<le> 500 then \<lparr>px = 3 * l / 5, py = 4 * l / 5\<rparr>
                                else \<lparr>px = 300 + 3 * (l - 500) / 5, py = 400 - 4 * (l - 500) / 5\<rparr>),
       getBBox = \<lparr>bbx = 0, bby = 0, width = 600, height = 400\<rparr>\<rparr> = [(0, 0), (60, 60)]
   \<and> sharedMidpoints
      \<lparr>getTotalLength = 600, getPointAtLength = (\<lambda>l. \<lparr>px = l, py = 0\<rparr>),
       getBBox = \<lparr>bbx = 0, bby = 0, width = 600, height = 0\<rparr>\<rparr>
      \<lparr>getTotalLength = 1000,
       getPointAtLength = (\<lambda>l. if l \<le> 500 then \<lparr>px = 3 * l / 5, py = 4 * l / 5\<rparr>
                                else \<lparr>px = 300 + 3 * (l - 500) / 5, py = 400 - 4 * (l - 500) / 5\<rparr>),
       getBBox = \<lparr>bbx = 0, bby = 0, width = 600, height = 400\<rparr>\<rparr>
     = [\<lparr>px = 0, py = 0\<rparr>, \<lparr>px = 600, py = 0\<rparr>]
   \<and> centroid [\<lparr>px = 0, py = 0\<rparr>, \<lparr>px = 600, py = 0\<rparr>] = \<lparr>px = 300, py = 0\<rparr>
   \<and> distance \<lparr>px = 0, py = 0\<rparr> \<lparr>px = 300, py = 0\<rparr> = 300
   \<and> computeBorderMidpoint
       [\<lparr>getTotalLength = 600, getPointAtLength = (\<lambda>l. \<lparr>px = l, py = 0\<rparr>),
         getBBox = \<lparr>bbx = 0, bby = 0, width = 600, height = 0\<rparr>\<rparr>,
        \<lparr>getTotalLength = 1000,
         getPointAtLength = (\<lambda>l. if l \<le> 500 then \<lparr>px = 3 * l / 5, py = 4 * l / 5\<rparr>
                                  else \<lparr>px = 300 + 3 * (l - 500) / 5, py = 400 - 4 * (l - 500) / 5\<rparr>),
         getBBox = \<lparr>bbx = 0, bby = 0, width = 600, height = 400\<rparr>\<rparr>] 0 1
     = Inr \<lparr>px = 0, py = 0\<rparr>
   \<and> sharedMidpoints
      \<lparr>getTotalLength = 1, getPointAtLength = (\<lambda>l. \<lparr>px = 0, py = 0\<rparr>),
       getBBox = \<lparr>bbx = 0, bby = 0, width = 0, height = 0\<rparr>\<rparr>
      \<lparr>getTotalLength = 1, getPointAtLength = (\<lambda>l. \<lparr>px = 2, py = 0\<rparr>),
       getBBox = \<lparr>bbx = 2, bby = 0, width = 0, height = 0\<rparr>\<rparr> \<noteq> []
   \<and> computeBorderMidpoint
       [\<lparr>getTotalLength = 1, getPointAtLength = (\<lambda>l. \<lparr>px = 0, py = 0\<rparr>),
         getBBox = \<lparr>bbx = 0, bby = 0, width = 0, height = 0\<rparr>\<rparr>,
        \<lparr>getTotalLength = 1, getPointAtLength = (\<lambda>l. \<lparr>px = 2, py = 0\<rparr>),
         getBBox = \<lparr>bbx = 2, bby = 0, width = 0, height = 0\<rparr>\<rparr>] 0 1
     = Inr \<lparr>px = 1, py = 0\<rparr>"
proof -
  let ?S = "\<lparr>getTotalLength = 600, getPointAtLength = (\<lambda>l. \<lparr>px = l, py = 0\<rparr>),
       getBBox = \<lparr>bbx = 0, bby = 0, width = 600, height = 0\<rparr>\<rparr>"
  let ?T = "\<lparr>getTotalLength = 1000,
       getPointAtLength = (\<lambda>l. if l \<le> 500 then \<lparr>px = 3 * l / 5, py = 4 * l / 5\<rparr>
                                else \<lparr>px = 300 + 3 * (l - 500) / 5, py = 400 - 4 * (l - 500) / 5\<rparr>),
       getBBox = \<lparr>bbx = 0, bby = 0, width = 600, height = 400\<rparr>\<rparr>"
  let ?o = "\<lparr>px = 0, py = 0\<rparr>"
  let ?e = "\<lparr>px = 600, py = 0\<rparr>"
  let ?c = "\<lparr>px = 300, py = 0\<rparr>"
  have pairs: "sharedPairs ?S ?T = [(0, 0), (60, 60)]"
    and mids: "sharedMidpoints ?S ?T = [?o, ?e]"
    by (rule ends_pairs; simp)+
  have ctr: "centroid [?o, ?e] = ?c" by (simp add: centroid_def)
  have d: "distance ?o ?c = 300" "distance ?e ?c = 300"
    by (simp_all add: distance_level)
  from runtime_estimator_centroid [of 0 "[?S, ?T]" 1 "[?o, ?e]"] mids
  obtain z pre post where split: "[?o, ?e] = pre @ z # post"
    and first: "\<forall>p \<in> set pre. distance z (centroid [?o, ?e]) < distance p (centroid [?o, ?e])"
    and res: "computeBorderMidpoint [?S, ?T] 0 1
       = Inr (if distance z (centroid [?o, ?e]) > 15 then z else centroid [?o, ?e])"
    by auto
  from split have "(pre = [] \<and> z = ?o) \<or> (pre = [?o] \<and> z = ?e)"
    by (auto simp: Cons_eq_append_conv)
  with first d have "z = ?o" unfolding ctr by auto
  with res d have far: "computeBorderMidpoint [?S, ?T] 0 1 = Inr ?o"
    unfolding ctr by simp
  let ?A = "\<lparr>getTotalLength = 1, getPointAtLength = (\<lambda>l. \<lparr>px = 0, py = 0\<rparr>),
       getBBox = \<lparr>bbx = 0, bby = 0, width = 0, height = 0\<rparr>\<rparr>"
  let ?B = "\<lparr>getTotalLength = 1, getPointAtLength = (\<lambda>l. \<lparr>px = 2, py = 0\<rparr>),
       getBBox = \<lparr>bbx = 2, bby = 0, width = 0, height = 0\<rparr>\<rparr>"
  let ?m = "\<lparr>px = 1, py = 0\<rparr>"
  have "sharedPoints ?A ?B \<noteq> []
     \<and> (\<forall>p \<in> set (sharedPoints ?A ?B).
           p = \<lparr>px = (px \<lparr>px = 0, py = 0\<rparr> + px \<lparr>px = 2, py = 0\<rparr>) / 2,
                py = (py \<lparr>px = 0, py = 0\<rparr> + py \<lparr>px = 2, py = 0\<rparr>) / 2\<rparr>)"
    by (rule shared_constant_paths) simp_all
  then have ne: "sharedMidpoints ?A ?B \<noteq> []" and all: "\<forall>p \<in> set (sharedMidpoints ?A ?B). p = ?m"
    by (simp_all add: sharedPoints_sharedMidpoints)
  from ne all have ctr': "centroid (sharedMidpoints ?A ?B) = ?m" by (rule centroid_constant)
  from runtime_estimator_centroid [of 0 "[?A, ?B]" 1 "sharedMidpoints ?A ?B"] ne
  obtain z' pre' post' where "sharedMidpoints ?A ?B = pre' @ z' # post'"
    and res': "computeBorderMidpoint [?A, ?B] 0 1
       = Inr (if distance z' (centroid (sharedMidpoints ?A ?B)) > 15 then z'
              else centroid (sharedMidpoints ?A ?B))"
    by auto
  then have "z' \<in> set (sharedMidpoints ?A ?B)" by simp
  with all have "z' = ?m" by blast
  with res' ctr' have near: "computeBorderMidpoint [?A, ?B] 0 1 = Inr ?m" by simp
  from pairs mids ctr d(1) far ne near show ?thesis by blast
qed

section \<open>The cache invokes the estimator once per pair\<close>














section \<open>The parser: the curve command\<close>

lemma parseStep_M:
  "toUpperCase c = CHR ''M'' \<Longrightarrow>
     parseStep st (c, ops) =
       Inr (st\<lparr>psegments := (if current st \<noteq> [] then psegments st @ [current st] else psegments st),
               curPt := Some \<lparr>jx = numAt (numsOf ops) 0, jy = numAt (numsOf ops) 1\<rparr>,
               startPt := Some \<lparr>jx = numAt (numsOf ops) 0, jy = numAt (numsOf ops) 1\<rparr>,
               current := [\<lparr>jx = numAt (numsOf ops) 0, jy = numAt (numsOf ops) 1\<rparr>]\<rparr>)"
  by (simp add: parseStep_def Let_def)

lemma parseStep_L:
  "toUpperCase c = CHR ''L'' \<Longrightarrow>
     parseStep st (c, ops) =
       Inr (st\<lparr>curPt := Some \<lparr>jx = numAt (numsOf ops) 0, jy = numAt (numsOf ops) 1\<rparr>,
               current := current st @ [\<lparr>jx = numAt (numsOf ops) 0, jy = numAt (numsOf ops) 1\<rparr>]\<rparr>)"
  by (simp add: parseStep_def Let_def)

lemma parseStep_C:
  "toUpperCase c = CHR ''C'' \<Longrightarrow>
     parseStep st (c, ops) =
       (case curPt st of
          None \<Rightarrow> Inl TypeError
        | Some p0 \<Rightarrow>
            Inr (st\<lparr>current := current st @
                       map (curvePoint p0 \<lparr>jx = numAt (numsOf ops) 0, jy = numAt (numsOf ops) 1\<rparr>
                              \<lparr>jx = numAt (numsOf ops) 2, jy = numAt (numsOf ops) 3\<rparr>
                              \<lparr>jx = numAt (numsOf ops) 4, jy = numAt (numsOf ops) 5\<rparr>) [1..<11],
                    curPt := Some \<lparr>jx = numAt (numsOf ops) 4, jy = numAt (numsOf ops) 5\<rparr>\<rparr>))"
  by (cases "curPt st") (simp_all add: parseStep_def Let_def)

lemma parseStep_other:
  "toUpperCase c \<noteq> CHR ''M'' \<Longrightarrow> toUpperCase c \<noteq> CHR ''L'' \<Longrightarrow> toUpperCase c \<noteq> CHR ''C''
     \<Longrightarrow> \<exists>st'. parseStep st (c, ops) = Inr st' \<and> curPt st' = curPt st
           \<and> (\<forall>r \<in> set (psegments st'). r \<in> set (psegments st) \<or> r \<noteq> [])"
  by (auto simp: parseStep_def Let_def split: option.splits)

lemma bezier_unfold:
  "bezier a0 a1 a2 a3 s =
     (1 - s) * (1 - s) * (1 - s) * a0 + 3 * (1 - s) * (1 - s) * s * a1 + 3 * (1 - s) * s * s * a2 + s * s * s * a3"
  by (simp add: bezier_def power2_eq_square power3_eq_cube algebra_simps)

lemma curvePoint_bezier:
  "curvePoint \<lparr>jx = Num x0, jy = Num y0\<rparr> \<lparr>jx = Num x1, jy = Num y1\<rparr> \<lparr>jx = Num x2, jy = Num y2\<rparr>
       \<lparr>jx = Num x3, jy = Num y3\<rparr> t
     = \<lparr>jx = Num (bezier x0 x1 x2 x3 (real t / 10)), jy = Num (bezier y0 y1 y2 y3 (real t / 10))\<rparr>"
  unfolding curvePoint_def Let_def bezier_unfold by simp

lemma parseLoop_append:
  "parseLoop st (ms @ ms') = (case parseLoop st ms of Inl e \<Rightarrow> Inl e | Inr st1 \<Rightarrow> parseLoop st1 ms')"
  by (induction ms arbitrary: st) (simp_all split: sum.splits)

text \<open>
  Claim C4: a curve command read while the current point is \<open>P0\<close>, with operands that give
  \<open>P1\<close>, \<open>P2\<close> and \<open>P3\<close>, appends exactly the ten points of the cubic B\'ezier polynomial at
  \<open>t = 0.1, 0.2, \<dots>, 1.0\<close> to the current ring, and leaves \<open>P3\<close> as the current point. This
  is what \<open>parsePath\<close> does with the command wherever it stands in the string: when the
  matches before it have led from the initial state to the state \<open>st\<close>, the result of
  \<open>parsePath\<close> is that of the remaining matches run from the state with the ten points
  appended, and when the curve is the last command, the result is the closed rings of \<open>st\<close>
  followed by the current ring with the ten points. The numbers are exact here, so the
  tolerance of the claim is not needed.
\<close>

theorem curve_command_linearizes:
  "toUpperCase c = CHR ''C'' \<and> curPt st = Some \<lparr>jx = Num x0, jy = Num y0\<rparr>
     \<and> numsOf ops = Num x1 # Num y1 # Num x2 # Num y2 # Num x3 # Num y3 # rest
   \<longrightarrow> (\<exists>st'. parseStep st (c, ops) = Inr st'
          \<and> current st' = current st @
               map (\<lambda>t. \<lparr>jx = Num (bezier x0 x1 x2 x3 (real t / 10)),
                         jy = Num (bezier y0 y1 y2 y3 (real t / 10))\<rparr>) [1..<11]
          \<and> length (current st') = length (current st) + 10
          \<and> curPt st' = Some \<lparr>jx = Num x3, jy = Num y3\<rparr>
          \<and> psegments st' = psegments st \<and> startPt st' = startPt st
          \<and> (\<forall>d ms ms'.
                execAll d = ms @ (c, ops) # ms'
                \<and> parseLoop \<lparr>psegments = [], current = [], startPt = None, curPt = None\<rparr> ms = Inr st
                \<longrightarrow> parsePath d =
                      (case parseLoop st' ms' of
                         Inl e \<Rightarrow> Inl e
                       | Inr s \<Rightarrow> Inr (if length (current s) > 0 then psegments s @ [current s]
                                       else psegments s))
                    \<and> (ms' = [] \<longrightarrow>
                         parsePath d = Inr (psegments st @ [current st @
                           map (\<lambda>t. \<lparr>jx = Num (bezier x0 x1 x2 x3 (real t / 10)),
                                     jy = Num (bezier y0 y1 y2 y3 (real t / 10))\<rparr>) [1..<11]]))))"
proof
  assume h: "toUpperCase c = CHR ''C'' \<and> curPt st = Some \<lparr>jx = Num x0, jy = Num y0\<rparr>
     \<and> numsOf ops = Num x1 # Num y1 # Num x2 # Num y2 # Num x3 # Num y3 # rest"
  then have nums: "numAt (numsOf ops) 0 = Num x1" "numAt (numsOf ops) (Suc 0) = Num y1"
      "numAt (numsOf ops) 2 = Num x2" "numAt (numsOf ops) 3 = Num y2"
      "numAt (numsOf ops) 4 = Num x3" "numAt (numsOf ops) 5 = Num y3"
    by (simp_all add: numAt_def)
  let ?pts = "map (\<lambda>t. \<lparr>jx = Num (bezier x0 x1 x2 x3 (real t / 10)),
                           jy = Num (bezier y0 y1 y2 y3 (real t / 10))\<rparr>) [1..<11]"
  let ?st' = "st\<lparr>current := current st @ ?pts, curPt := Some \<lparr>jx = Num x3, jy = Num y3\<rparr>\<rparr>"
  let ?init = "\<lparr>psegments = [], current = [], startPt = None, curPt = None\<rparr>"
  from h have c: "toUpperCase c = CHR ''C''" and cur: "curPt st = Some \<lparr>jx = Num x0, jy = Num y0\<rparr>"
    by simp_all
  have step: "parseStep st (c, ops) = Inr ?st'"
    by (simp add: parseStep_C [OF c] cur nums curvePoint_bezier)
  have len: "length (current ?st') = length (current st) + 10" by simp
  have path: "parsePath d =
        (case parseLoop ?st' ms' of
           Inl e \<Rightarrow> Inl e
         | Inr s \<Rightarrow> Inr (if length (current s) > 0 then psegments s @ [current s] else psegments s))
      \<and> (ms' = [] \<longrightarrow> parsePath d = Inr (psegments st @ [current st @ ?pts]))"
    if "execAll d = ms @ (c, ops) # ms' \<and> parseLoop ?init ms = Inr st" for d ms ms'
  proof -
    from that have ex: "execAll d = ms @ (c, ops) # ms'" and pre: "parseLoop ?init ms = Inr st"
      by simp_all
    have "parseLoop ?init (execAll d) = parseLoop ?st' ms'"
      unfolding ex by (simp add: parseLoop_append pre step)
    then have 1: "parsePath d =
        (case parseLoop ?st' ms' of
           Inl e \<Rightarrow> Inl e
         | Inr s \<Rightarrow> Inr (if length (current s) > 0 then psegments s @ [current s] else psegments s))"
      by (simp add: parsePath_def)
    then have "parsePath d = Inr (psegments st @ [current st @ ?pts])" if "ms' = []"
      using that by simp
    with 1 show ?thesis by simp
  qed
  show "\<exists>st'. parseStep st (c, ops) = Inr st'
          \<and> current st' = current st @ ?pts
          \<and> length (current st') = length (current st) + 10
          \<and> curPt st' = Some \<lparr>jx = Num x3, jy = Num y3\<rparr>
          \<and> psegments st' = psegments st \<and> startPt st' = startPt st
          \<and> (\<forall>d ms ms'.
                execAll d = ms @ (c, ops) # ms' \<and> parseLoop ?init ms = Inr st
                \<longrightarrow> parsePath d =
                      (case parseLoop st' ms' of
                         Inl e \<Rightarrow> Inl e
                       | Inr s \<Rightarrow> Inr (if length (current s) > 0 then psegments s @ [current s]
                                       else psegments s))
                    \<and> (ms' = [] \<longrightarrow> parsePath d = Inr (psegments st @ [current st @ ?pts])))"
  proof (intro exI [of _ ?st'] conjI)
    show "parseStep st (c, ops) = Inr ?st'" by (rule step)
    show "\<forall>d ms ms'.
            execAll d = ms @ (c, ops) # ms' \<and> parseLoop ?init ms = Inr st
            \<longrightarrow> parsePath d =
                  (case parseLoop ?st' ms' of
                     Inl e \<Rightarrow> Inl e
                   | Inr s \<Rightarrow> Inr (if length (current s) > 0 then psegments s @ [current s]
                                   else psegments s))
                \<and> (ms' = [] \<longrightarrow> parsePath d = Inr (psegments st @ [current st @ ?pts]))"
      using path by blast
  qed simp_all
qed

lemmas parser_defs = isCommand_def isSpace_def isDigit_def isOperandChar_def isSeparator_def
  toUpperCase_def trim_def numsOf_def Number_def exponentOf_def digitsValue_def numAt_def

theorem curve_command_linearizes_witness:
  "execAll ''M0,0 c0,1 1,1 1,0'' = [(CHR ''M'', ''0,0 ''), (CHR ''c'', ''0,1 1,1 1,0'')]
   \<and> numsOf ''0,1 1,1 1,0'' = [Num 0, Num 1, Num 1, Num 1, Num 1, Num 0]
   \<and> parsePath ''M0,0 c0,1 1,1 1,0'' =
       Inr [[\<lparr>jx = Num 0, jy = Num 0\<rparr>, \<lparr>jx = Num (7 / 250), jy = Num (27 / 100)\<rparr>,
             \<lparr>jx = Num (13 / 125), jy = Num (12 / 25)\<rparr>, \<lparr>jx = Num (27 / 125), jy = Num (63 / 100)\<rparr>,
             \<lparr>jx = Num (44 / 125), jy = Num (18 / 25)\<rparr>, \<lparr>jx = Num (1 / 2), jy = Num (3 / 4)\<rparr>,
             \<lparr>jx = Num (81 / 125), jy = Num (18 / 25)\<rparr>, \<lparr>jx = Num (98 / 125), jy = Num (63 / 100)\<rparr>,
             \<lparr>jx = Num (112 / 125), jy = Num (12 / 25)\<rparr>, \<lparr>jx = Num (243 / 250), jy = Num (27 / 100)\<rparr>,
             \<lparr>jx = Num 1, jy = Num 0\<rparr>]]"
proof -
  let ?init = "\<lparr>psegments = [], current = [], startPt = None, curPt = None\<rparr>"
  let ?st = "\<lparr>psegments = [], current = [\<lparr>jx = Num 0, jy = Num 0\<rparr>],
              startPt = Some \<lparr>jx = Num 0, jy = Num 0\<rparr>, curPt = Some \<lparr>jx = Num 0, jy = Num 0\<rparr>\<rparr>"
  have ex: "execAll ''M0,0 c0,1 1,1 1,0'' = [(CHR ''M'', ''0,0 ''), (CHR ''c'', ''0,1 1,1 1,0'')]"
    by (simp add: parser_defs)
  have nums: "numsOf ''0,1 1,1 1,0'' = [Num 0, Num 1, Num 1, Num 1, Num 1, Num 0]"
    by (simp add: parser_defs split.simps)
  have pre: "parseLoop ?init [(CHR ''M'', ''0,0 '')] = Inr ?st"
    by (simp add: parseStep_def parser_defs split.simps Let_def)
  have up: "toUpperCase CHR ''c'' = CHR ''C''" by (simp add: toUpperCase_def)
  have upt: "[1..<11] = [1, 2, 3, 4, 5, 6, 7, 8, 9, 10 :: nat]"
    by (simp add: upt_conv_Cons)
  have pts: "map (\<lambda>t. \<lparr>jx = Num (bezier 0 0 1 1 (real t / 10)), jy = Num (bezier 0 1 1 0 (real t / 10))\<rparr>) [1..<11]
      = [\<lparr>jx = Num (7 / 250), jy = Num (27 / 100)\<rparr>,
         \<lparr>jx = Num (13 / 125), jy = Num (12 / 25)\<rparr>, \<lparr>jx = Num (27 / 125), jy = Num (63 / 100)\<rparr>,
         \<lparr>jx = Num (44 / 125), jy = Num (18 / 25)\<rparr>, \<lparr>jx = Num (1 / 2), jy = Num (3 / 4)\<rparr>,
         \<lparr>jx = Num (81 / 125), jy = Num (18 / 25)\<rparr>, \<lparr>jx = Num (98 / 125), jy = Num (63 / 100)\<rparr>,
         \<lparr>jx = Num (112 / 125), jy = Num (12 / 25)\<rparr>, \<lparr>jx = Num (243 / 250), jy = Num (27 / 100)\<rparr>,
         \<lparr>jx = Num 1, jy = Num 0\<rparr>]"
    unfolding upt by (simp add: bezier_def power2_eq_square power3_eq_cube)
  from curve_command_linearizes [of "CHR ''c''" ?st 0 0 "''0,1 1,1 1,0''" 0 1 1 1 1 0 "[]"] nums up
  have "\<forall>d ms ms'. execAll d = ms @ (CHR ''c'', ''0,1 1,1 1,0'') # ms' \<and> parseLoop ?init ms = Inr ?st
          \<longrightarrow> (ms' = [] \<longrightarrow> parsePath d = Inr (psegments ?st @ [current ?st @
                 map (\<lambda>t. \<lparr>jx = Num (bezier 0 0 1 1 (real t / 10)), jy = Num (bezier 0 1 1 0 (real t / 10))\<rparr>) [1..<11]]))"
    by auto
  from this [rule_format, of "''M0,0 c0,1 1,1 1,0''" "[(CHR ''M'', ''0,0 '')]" "[]"] ex pre
  have "parsePath ''M0,0 c0,1 1,1 1,0'' = Inr (psegments ?st @ [current ?st @
                 map (\<lambda>t. \<lparr>jx = Num (bezier 0 0 1 1 (real t / 10)), jy = Num (bezier 0 1 1 0 (real t / 10))\<rparr>) [1..<11]])"
    by simp
  with ex nums pts show ?thesis by simp
qed

section \<open>The parser: degenerate input\<close>

lemma parseStep_ringsNonempty:
  assumes "parseStep st m = Inr st'" and "ringsNonempty st"
  shows "ringsNonempty st'"
proof -
  obtain c ops where m: "m = (c, ops)" by (cases m)
  consider "toUpperCase c = CHR ''M''" | "toUpperCase c = CHR ''L''" | "toUpperCase c = CHR ''C''"
    | "toUpperCase c \<noteq> CHR ''M''" "toUpperCase c \<noteq> CHR ''L''" "toUpperCase c \<noteq> CHR ''C''"
    by blast
  then show ?thesis
  proof cases
    case 1
    with assms show ?thesis unfolding m
      by (auto simp: parseStep_M ringsNonempty_def split: if_splits)
  next
    case 2
    with assms show ?thesis unfolding m by (auto simp: parseStep_L ringsNonempty_def)
  next
    case 3
    with assms show ?thesis unfolding m
      by (auto simp: parseStep_C ringsNonempty_def split: option.splits)
  next
    case 4
    from parseStep_other [OF 4, of st ops] assms show ?thesis
      unfolding m by (auto simp: ringsNonempty_def)
  qed
qed

lemma parseLoop_ringsNonempty:
  "parseLoop st ms = Inr st' \<Longrightarrow> ringsNonempty st \<Longrightarrow> ringsNonempty st'"
proof (induction ms arbitrary: st)
  case (Cons m ms)
  from Cons.prems(1) obtain st1 where step: "parseStep st m = Inr st1"
    and loop: "parseLoop st1 ms = Inr st'"
    by (auto split: sum.splits)
  from step Cons.prems(2) have "ringsNonempty st1" by (rule parseStep_ringsNonempty)
  with loop show ?case by (rule Cons.IH)
qed simp

text \<open>Once a current point is set, no command throws.\<close>

lemma parseStep_with_point:
  assumes "curPt st \<noteq> None"
  shows "\<exists>st'. parseStep st m = Inr st' \<and> curPt st' \<noteq> None"
proof -
  obtain c ops where m: "m = (c, ops)" by (cases m)
  consider "toUpperCase c = CHR ''M''" | "toUpperCase c = CHR ''L''" | "toUpperCase c = CHR ''C''"
    | "toUpperCase c \<noteq> CHR ''M''" "toUpperCase c \<noteq> CHR ''L''" "toUpperCase c \<noteq> CHR ''C''"
    by blast
  then show ?thesis
  proof cases
    case 1
    then show ?thesis unfolding m by (simp add: parseStep_M)
  next
    case 2
    then show ?thesis unfolding m by (simp add: parseStep_L)
  next
    case 3
    with assms show ?thesis unfolding m by (auto simp: parseStep_C)
  next
    case 4
    from parseStep_other [OF 4, of st ops] assms show ?thesis unfolding m by auto
  qed
qed

lemma parseLoop_with_point:
  "curPt st \<noteq> None \<Longrightarrow> \<exists>st'. parseLoop st ms = Inr st'"
proof (induction ms arbitrary: st)
  case (Cons m ms)
  from parseStep_with_point [OF Cons.prems, of m] obtain st1
    where "parseStep st m = Inr st1" and "curPt st1 \<noteq> None" by blast
  with Cons.IH [of st1] show ?case by simp
qed simp

text \<open>Before that, exactly a curve command throws.\<close>

lemma parseLoop_without_point:
  "curPt st = None \<Longrightarrow>
     (\<exists>st'. parseLoop st ms = Inr st') \<longleftrightarrow> \<not> curveWithoutPoint (map (\<lambda>m. toUpperCase (fst m)) ms)"
proof (induction ms arbitrary: st)
  case (Cons m ms)
  obtain c ops where m: "m = (c, ops)" by (cases m)
  consider "toUpperCase c = CHR ''M''" | "toUpperCase c = CHR ''L''" | "toUpperCase c = CHR ''C''"
    | "toUpperCase c \<noteq> CHR ''M''" "toUpperCase c \<noteq> CHR ''L''" "toUpperCase c \<noteq> CHR ''C''"
    by blast
  then show ?case
  proof cases
    case 1
    then obtain st1 where "parseStep st (c, ops) = Inr st1" and "curPt st1 \<noteq> None"
      by (simp add: parseStep_M)
    with parseLoop_with_point [of st1 ms] 1 show ?thesis unfolding m by simp
  next
    case 2
    then obtain st1 where "parseStep st (c, ops) = Inr st1" and "curPt st1 \<noteq> None"
      by (simp add: parseStep_L)
    with parseLoop_with_point [of st1 ms] 2 show ?thesis unfolding m by simp
  next
    case 3
    with Cons.prems show ?thesis unfolding m by (simp add: parseStep_C)
  next
    case 4
    from parseStep_other [OF 4, of st ops] obtain st1
      where "parseStep st (c, ops) = Inr st1" and "curPt st1 = curPt st" by blast
    with Cons.prems Cons.IH [of st1] 4 show ?thesis unfolding m by simp
  qed
qed simp

lemma parsePath_throws_iff:
  "parsePath d = Inl TypeError \<longleftrightarrow> curveWithoutPoint (commandsOf d)"
proof -
  let ?st0 = "\<lparr>psegments = [], current = [], startPt = None, curPt = None\<rparr>"
  have "(\<exists>st'. parseLoop ?st0 (execAll d) = Inr st') \<longleftrightarrow> \<not> curveWithoutPoint (commandsOf d)"
    unfolding commandsOf_def by (rule parseLoop_without_point) simp
  moreover have "e = TypeError" if "parseLoop st ms = Inl e" for st ms e
    using that
  proof (induction ms arbitrary: st)
    case (Cons m ms)
    then show ?case
      by (cases m) (auto simp: parseStep_def Let_def split: sum.splits option.splits if_splits)
  qed simp
  ultimately show ?thesis
    by (cases "parseLoop ?st0 (execAll d)") (auto simp: parsePath_def)
qed





section \<open>Parsed shapes and the fallback of pointAtLength\<close>

text \<open>
  The parser never emits an empty ring, so a parsed shape with rings has a last point: the
  shapes on which the fallback of \<open>pointAtLength\<close> reads out of range are not shapes that
  \<open>parsePath\<close> produces.
\<close>

lemma parsePath_rings_nonempty:
  assumes "parsePath d = Inr rings"
  shows "\<forall>r \<in> set rings. r \<noteq> []"
proof -
  let ?st0 = "\<lparr>psegments = [], current = [], startPt = None, curPt = None\<rparr>"
  from assms obtain st' where loop: "parseLoop ?st0 (execAll d) = Inr st'"
    and rings: "rings = (if length (current st') > 0 then psegments st' @ [current st'] else psegments st')"
    by (auto simp: parsePath_def split: sum.splits)
  have "ringsNonempty ?st0" by (simp add: ringsNonempty_def)
  with loop have "ringsNonempty st'" by (rule parseLoop_ringsNonempty)
  then show ?thesis unfolding rings by (auto simp: ringsNonempty_def)
qed

lemma those_length: "those xs = Some ys \<Longrightarrow> length ys = length xs"
  by (induction xs arbitrary: ys) (auto split: option.splits)

lemma those_nth: "those xs = Some ys \<Longrightarrow> i < length xs \<Longrightarrow> xs ! i = Some (ys ! i)"
proof (induction xs arbitrary: ys i)
  case (Cons x xs)
  then show ?case by (cases i) (auto split: option.splits)
qed simp

lemma numberShape_lengths:
  assumes "numberShape rings = Some segments"
  shows "length segments = length rings"
    and "i < length rings \<Longrightarrow> length (segments ! i) = length (rings ! i)"
proof -
  from assms have th: "those (map (\<lambda>r. those (map numberPoint r)) rings) = Some segments"
    by (simp add: numberShape_def)
  from those_length [OF th] show len: "length segments = length rings" by simp
  assume i: "i < length rings"
  with those_nth [OF th, of i] have "those (map numberPoint (rings ! i)) = Some (segments ! i)"
    by simp
  from those_length [OF this] show "length (segments ! i) = length (rings ! i)" by simp
qed

lemma parsed_shape_has_last_point:
  assumes "parsePath d = Inr rings" and "numberShape rings = Some segments" and "segments \<noteq> []"
  shows "last segments \<noteq> []"
proof -
  note len = numberShape_lengths [OF assms(2)]
  let ?i = "length rings - 1"
  from assms(3) len(1) have "rings \<noteq> []" by auto
  then have i: "?i < length rings" by simp
  then have "rings ! ?i \<in> set rings" by simp
  with parsePath_rings_nonempty [OF assms(1)] have "rings ! ?i \<noteq> []" by blast
  with len(2) [OF i] have "segments ! ?i \<noteq> []" by auto
  with assms(3) len(1) show ?thesis by (simp add: last_conv_nth)
qed

end
